theory Spec2Isabelle
  imports Main "HOL-Library.Word" "HOL-Library.Sublist"
begin

unbundle bit_operations_syntax

section \<open>printfq: escaping strings for a POSIX shell\<close>

text \<open>
  A shallow embedding of \<^verbatim>\<open>printfq.c\<close>. Characters, bytes and code points are
  \<^typ>\<open>int\<close>: every value the program computes stays far below \<open>2 ^ 31\<close>, so no
  arithmetic of the source wraps. \<open>EOF\<close> is \<open>-1\<close>. Streams are lists: \<open>stdin\<close>
  holds the bytes not yet read, \<open>stdout\<close> the bytes written so far.
\<close>

subsection \<open>The platform\<close>

text \<open>
  The C library and the operating system are not part of the program: they are
  parameters of the model. These are the classification functions of the locale,
  the size of \<open>wchar_t\<close>, the result of \<open>setlocale\<close> and of \<open>nl_langinfo(CODESET)\<close>,
  the conversions between bytes and wide characters that the library's wide streams
  perform (the wide characters read from a byte stream, and whether a decoding error
  ends them; the bytes written for a wide character), and the success of the system
  calls. A write to standard output succeeds when \<open>stdout_ok\<close> holds of the number of
  characters written so far, and a write to the pipe when \<open>pipe_ok\<close> does.
\<close>

record platform =
  isprint :: "int \<Rightarrow> bool"
  iswprint :: "int \<Rightarrow> bool"
  iswspace :: "int \<Rightarrow> bool"
  sizeof_wchar_t :: nat
  setlocale_ok :: bool
  codeset :: string
  decode_wide :: "8 word list \<Rightarrow> 31 word list \<times> bool"
  encode_wide :: "31 word \<Rightarrow> 8 word list"
  stdout_ok :: "nat \<Rightarrow> bool"
  pipe_fork_ok :: bool
  fdopen_ok :: bool
  pipe_ok :: "nat \<Rightarrow> bool"

definition EOF :: int where
  "EOF = -1"

definition EX_USAGE :: int where
  "EX_USAGE = 64"

definition EX_OSERR :: int where
  "EX_OSERR = 71"

definition EX_IOERR :: int where
  "EX_IOERR = 74"

definition EILSEQ :: int where
  "EILSEQ = 84"

subsection \<open>Classifiers\<close>

definition iswprintExt :: "platform \<Rightarrow> int \<Rightarrow> bool" where
  "iswprintExt p c \<longleftrightarrow>
     iswprint p c \<and>
     0xAD \<noteq> c \<and>
     0x034F \<noteq> c \<and>
     0x061C \<noteq> c \<and>
     0x115F \<noteq> c \<and>
     0x1160 \<noteq> c \<and>
     0x17B4 \<noteq> c \<and>
     0x17B5 \<noteq> c \<and>
     (0x180B > c \<or> 0x180E < c) \<and>
     (0x200B > c \<or> 0x200F < c) \<and>
     (0x202A > c \<or> 0x202E < c) \<and>
     (0x2060 > c \<or> 0x206F < c) \<and>
     (0xFE00 > c \<or> 0xFE0F < c) \<and>
     0xFEFF \<noteq> c \<and>
     0xFFA0 \<noteq> c \<and>
     0xFFFC \<noteq> c \<and>
     0x1D159 \<noteq> c \<and>
     (0x1D173 > c \<or> 0x1D17A < c) \<and>
     0xE0001 \<noteq> c \<and>
     (0xE0020 > c \<or> 0xE007F < c) \<and>
     (0xE0100 > c \<or> 0xE01EF < c)"

definition iswNotBlank :: "platform \<Rightarrow> int \<Rightarrow> bool" where
  "iswNotBlank p c \<longleftrightarrow>
     iswprintExt p c \<and>
     (if 0x100 > c then 0xA0 \<noteq> c
      else \<not> (iswspace p c \<or> 0x2007 = c \<or> 0x202F = c \<or> 0x2800 = c \<or> 0x3164 = c))"

text \<open>The function pointer \<open>iswprintFn\<close> takes one of three values.\<close>

datatype printFn = Iswprint | IswprintExt | IswNotBlank

fun call_iswprintFn :: "platform \<Rightarrow> printFn \<Rightarrow> int \<Rightarrow> bool" where
  "call_iswprintFn p Iswprint c = iswprint p c"
| "call_iswprintFn p IswprintExt c = iswprintExt p c"
| "call_iswprintFn p IswNotBlank c = iswNotBlank p c"

subsection \<open>Tables\<close>

definition shControlChars :: "int list" where
  "shControlChars =
    [0, 0, 0, 0, 0, 0, 0, 0,
     0, 1, 1, 0, 0, 0, 0, 0,
     0, 0, 0, 0, 0, 0, 0, 0,
     0, 0, 0, 0, 0, 0, 0, 0,
     1, 1, 1, 1, 1, 0, 1, 1,
     1, 1, 1, 0, 1, 0, 0, 0,
     0, 0, 0, 0, 0, 0, 0, 0,
     0, 0, 0, 1, 1, 0, 1, 1,
     0, 0, 0, 0, 0, 0, 0, 0,
     0, 0, 0, 0, 0, 0, 0, 0,
     0, 0, 0, 0, 0, 0, 0, 0,
     0, 0, 0, 1, 1, 1, 1, 0,
     1, 0, 0, 0, 0, 0, 0, 0,
     0, 0, 0, 0, 0, 0, 0, 0,
     0, 0, 0, 0, 0, 0, 0, 0,
     0, 0, 0, 1, 1, 1, 0, 0]"

text \<open>\<^verbatim>\<open>(unsigned)c < sizeof(shControlChars) && shControlChars[c]\<close>\<close>

definition isShControl :: "int \<Rightarrow> bool" where
  "isShControl c \<longleftrightarrow> 0 \<le> c \<and> c < int (length shControlChars) \<and> shControlChars ! nat c \<noteq> 0"

definition ansiEscapes :: "int list" where
  "ansiEscapes =
    [0, 0, 0, 0, 0, 0, 0, 0x61,
     0x62, 0x74, 0x6E, 0x76, 0x66, 0x72, 0, 0,
     0, 0, 0, 0, 0, 0, 0, 0,
     0, 0, 0, 0x45]"

text \<open>\<^verbatim>\<open>(unsigned)c < ansiEscapesLimit && ansiEscapes[c]\<close>\<close>

definition hasAnsiEscape :: "nat \<Rightarrow> int \<Rightarrow> bool" where
  "hasAnsiEscape limit c \<longleftrightarrow> 0 \<le> c \<and> c < int limit \<and> ansiEscapes ! nat c \<noteq> 0"

subsection \<open>Option processing\<close>

text \<open>
  The values \<open>getopt_long\<close> returns, one constructor per \<open>case\<close> of the switch;
  \<open>OptOther\<close> stands for a return value the switch sends to \<open>default\<close>.
\<close>

datatype opt = OptHelp | OptE | OptF | OptI | OptM | OptN | OptU | OptZ | OptVersion
  | OptInvalid | OptOther

record flags =
  ansiEscapesLimit :: nat
  iswprintFn :: printFn
  disableCQuoting :: bool
  useUnicodeEscapes :: bool
  flushArguments :: bool
  ignoreNullInput :: bool
  nullTerminatedOutput :: bool

definition initial_flags :: flags where
  "initial_flags =
     \<lparr>ansiEscapesLimit = 14, iswprintFn = Iswprint, disableCQuoting = False,
      useUnicodeEscapes = False, flushArguments = False, ignoreNullInput = False,
      nullTerminatedOutput = False\<rparr>"

text \<open>
  The option loop. \<open>Inl rc\<close> is an exit of the process with status \<open>rc\<close> from inside
  the loop (help, version, usage error); the texts printed there are not modelled.
\<close>

fun parse_options :: "opt list \<Rightarrow> flags \<Rightarrow> int + flags" where
  "parse_options [] f = Inr f"
| "parse_options (OptHelp # os) f = Inl 0"
| "parse_options (OptE # os) f = parse_options os (f\<lparr>iswprintFn := IswNotBlank\<rparr>)"
| "parse_options (OptF # os) f =
     parse_options os (f\<lparr>flushArguments := True, nullTerminatedOutput := True\<rparr>)"
| "parse_options (OptI # os) f =
     parse_options os (if IswNotBlank \<noteq> iswprintFn f then f\<lparr>iswprintFn := IswprintExt\<rparr> else f)"
| "parse_options (OptM # os) f = parse_options os (f\<lparr>disableCQuoting := True\<rparr>)"
| "parse_options (OptN # os) f = parse_options os (f\<lparr>ignoreNullInput := True\<rparr>)"
| "parse_options (OptU # os) f =
     parse_options os (f\<lparr>useUnicodeEscapes := True, ansiEscapesLimit := length ansiEscapes\<rparr>)"
| "parse_options (OptZ # os) f = parse_options os (f\<lparr>nullTerminatedOutput := True\<rparr>)"
| "parse_options (OptVersion # os) f = Inl 0"
| "parse_options (OptInvalid # os) f = Inl EX_USAGE"
| "parse_options (OptOther # os) f = Inl EX_USAGE"

definition policy_of :: "opt list \<Rightarrow> printFn option" where
  "policy_of os = (case parse_options os initial_flags of Inl rc \<Rightarrow> None | Inr f \<Rightarrow> Some (iswprintFn f))"

subsection \<open>Streams\<close>

type_synonym byte = "8 word"

text \<open>
  The standard streams of one process, over bytes or over wide characters.
  \<open>getc_unlocked\<close> returns the next byte as a value from 0 to 255, or \<open>EOF\<close> at the
  end of the input, where it stays.
\<close>

record 'c io =
  stdin :: "'c list"
  stdout :: "'c list"

definition getc :: "(byte, 'a) io_scheme \<Rightarrow> int \<times> (byte, 'a) io_scheme" where
  "getc s = (case stdin s of [] \<Rightarrow> (EOF, s) | b # bs \<Rightarrow> (uint b, s\<lparr>stdin := bs\<rparr>))"

text \<open>\<open>ungetc\<close>: pushing back \<open>EOF\<close> does nothing.\<close>

definition ungetc :: "int \<Rightarrow> (byte, 'a) io_scheme \<Rightarrow> (byte, 'a) io_scheme" where
  "ungetc c s = (if c = EOF then s else s\<lparr>stdin := word_of_int c # stdin s\<rparr>)"

text \<open>
  A write of the bytes \<open>bs\<close> to standard output: it returns whether it succeeded,
  and appends nothing when it did not.
\<close>

definition fwrite :: "platform \<Rightarrow> 'c list \<Rightarrow> ('c, 'a) io_scheme \<Rightarrow> bool \<times> ('c, 'a) io_scheme" where
  "fwrite p bs s =
     (if stdout_ok p (length (stdout s)) then (True, s\<lparr>stdout := stdout s @ bs\<rparr>) else (False, s))"

text \<open>The writes whose result the program ignores.\<close>

definition emit :: "platform \<Rightarrow> 'c list \<Rightarrow> ('c, 'a) io_scheme \<Rightarrow> ('c, 'a) io_scheme" where
  "emit p bs s = snd (fwrite p bs s)"

definition putc ::
  "platform \<Rightarrow> int \<Rightarrow> ('c::len word, 'a) io_scheme \<Rightarrow> ('c word, 'a) io_scheme" where
  "putc p c s = emit p [word_of_int c] s"

text \<open>\<open>fflush_unlocked(stdout)\<close>: nothing but its result is modelled.\<close>

definition fflush :: "platform \<Rightarrow> ('c, 'a) io_scheme \<Rightarrow> bool" where
  "fflush p s = stdout_ok p (length (stdout s))"

subsection \<open>Formatted output\<close>

definition digit_char :: "nat \<Rightarrow> 'c::len word" where
  "digit_char d = (if d < 10 then of_nat (48 + d) else of_nat (55 + d))"

text \<open>The digits of \<open>n\<close> in base 8 and in base 16 (upper case), most significant first.\<close>

function fmt_o :: "nat \<Rightarrow> 'c::len word list" where
  "fmt_o n = (if n < 8 then [digit_char n] else fmt_o (n div 8) @ [digit_char (n mod 8)])"
  by pat_completeness auto
termination
  by (relation "measure id") auto

function fmt_X :: "nat \<Rightarrow> 'c::len word list" where
  "fmt_X n = (if n < 16 then [digit_char n] else fmt_X (n div 16) @ [digit_char (n mod 16)])"
  by pat_completeness auto
termination
  by (relation "measure id") auto

declare fmt_o.simps [simp del] fmt_X.simps [simp del]

text \<open>
  A precision \<open>k\<close> (\<^verbatim>\<open>%.3o\<close>, \<^verbatim>\<open>%.4X\<close>) pads with zeros on the left to \<open>k\<close> digits.
  The characters of the formats are bytes for \<open>printf\<close> and wide characters for
  \<open>wprintf\<close>.
\<close>

definition precision :: "nat \<Rightarrow> 'c::len word list \<Rightarrow> 'c word list" where
  "precision k ds = replicate (k - length ds) 0x30 @ ds"

definition backslash :: "'c::len word" where
  "backslash = 0x5C"

definition quote :: "'c::len word" where
  "quote = 0x27"

text \<open>\<^verbatim>\<open>"\\%.3o"\<close> and \<^verbatim>\<open>"\\%o"\<close>\<close>

definition fmt_octal3 :: "int \<Rightarrow> 'c::len word list" where
  "fmt_octal3 c = backslash # precision 3 (fmt_o (nat c))"

definition fmt_octal :: "int \<Rightarrow> 'c::len word list" where
  "fmt_octal c = backslash # fmt_o (nat c)"

text \<open>\<^verbatim>\<open>"\\u%.4X"\<close>, \<^verbatim>\<open>"\\u%X"\<close> and \<^verbatim>\<open>"\\U%X"\<close>\<close>

definition fmt_u4 :: "int \<Rightarrow> 'c::len word list" where
  "fmt_u4 c = [backslash, 0x75] @ precision 4 (fmt_X (nat c))"

definition fmt_u :: "int \<Rightarrow> 'c::len word list" where
  "fmt_u c = [backslash, 0x75] @ fmt_X (nat c)"

definition fmt_U :: "int \<Rightarrow> 'c::len word list" where
  "fmt_U c = [backslash, 0x55] @ fmt_X (nat c)"

text \<open>\<^verbatim>\<open>"\\%c"\<close> with an entry of \<open>ansiEscapes\<close>\<close>

definition fmt_ansi :: "int \<Rightarrow> 'c::len word list" where
  "fmt_ansi c = [backslash, word_of_int (ansiEscapes ! nat c)]"

text \<open>\<open>isxdigit\<close> does not depend on the locale.\<close>

definition isxdigit :: "int \<Rightarrow> bool" where
  "isxdigit c \<longleftrightarrow> (0x30 \<le> c \<and> c \<le> 0x39) \<or> (0x41 \<le> c \<and> c \<le> 0x46) \<or> (0x61 \<le> c \<and> c \<le> 0x66)"

subsection \<open>The UTF-8 decoder\<close>

text \<open>
  The variables that \<open>getUtf8CodePoint\<close> and \<open>ungetUtf8CodePoint\<close> share with the
  main loop. \<open>getUtf8Buff\<close> holds values of \<open>getc\<close> (so \<open>EOF\<close> too), \<open>cbuff\<close> bytes.
\<close>

record utf8_state = "byte io" +
  getUtf8Buff :: "int list"
  getUtf8BuffLength :: nat
  cbuff :: "byte list"
  bytesInCodePoint :: nat

text \<open>
  \<open>memmove\<close> inside one array: \<open>n\<close> elements from offset \<open>src\<close> to offset \<open>dst\<close>,
  read from the array as it was before the call, so that overlapping is harmless.
\<close>

fun copy_elems :: "'a list \<Rightarrow> nat \<Rightarrow> nat \<Rightarrow> nat \<Rightarrow> 'a list \<Rightarrow> 'a list" where
  "copy_elems old dst src 0 xs = xs"
| "copy_elems old dst src (Suc n) xs = copy_elems old dst src n (xs[dst + n := old ! (src + n)])"

definition memmove :: "'a list \<Rightarrow> nat \<Rightarrow> nat \<Rightarrow> nat \<Rightarrow> 'a list" where
  "memmove xs dst src n = copy_elems xs dst src n xs"

text \<open>\<^verbatim>\<open>getUtf8Buff[k] = getc_unlocked(stdin)\<close>\<close>

definition read_into :: "nat \<Rightarrow> utf8_state \<Rightarrow> utf8_state" where
  "read_into k s = (case getc s of (c, s') \<Rightarrow> s'\<lparr>getUtf8Buff := (getUtf8Buff s')[k := c]\<rparr>)"

text \<open>
  The common exit of \<open>getUtf8CodePoint\<close> for a single byte, \<open>EOF\<close> and every
  failure: return the first element of the buffer and shift the others down.
\<close>

definition utf8_return_first :: "utf8_state \<Rightarrow> int \<times> utf8_state" where
  "utf8_return_first s =
     (let rc = getUtf8Buff s ! 0 in
      if getUtf8BuffLength s \<noteq> 0 then
        (let s1 = s\<lparr>getUtf8BuffLength := getUtf8BuffLength s - 1\<rparr> in
         if getUtf8BuffLength s1 \<noteq> 0
         then (rc, s1\<lparr>getUtf8Buff := memmove (getUtf8Buff s1) 0 1 (getUtf8BuffLength s1)\<rparr>)
         else (rc, s1))
      else (rc, s))"

definition utf8_fail :: "utf8_state \<Rightarrow> int \<times> utf8_state" where
  "utf8_fail s = utf8_return_first (s\<lparr>bytesInCodePoint := 0\<rparr>)"

text \<open>\<^verbatim>\<open>if(3 > getUtf8BuffLength) getUtf8BuffLength = 3;\<close> and then the failure exit.\<close>

definition utf8_fail3 :: "utf8_state \<Rightarrow> int \<times> utf8_state" where
  "utf8_fail3 s =
     utf8_fail (if 3 > getUtf8BuffLength s then s\<lparr>getUtf8BuffLength := 3\<rparr> else s)"

text \<open>The labels \<open>setCbuff1\<close>, \<open>setCbuff2\<close> and \<open>setCbuff3\<close>, each falling into the next.\<close>

definition setCbuff1 :: "int \<Rightarrow> utf8_state \<Rightarrow> int \<times> utf8_state" where
  "setCbuff1 rc s =
     (let s1 = s\<lparr>cbuff := (cbuff s)[1 := word_of_int (getUtf8Buff s ! 1)]\<rparr>;
          s2 = s1\<lparr>cbuff := (cbuff s1)[0 := word_of_int (getUtf8Buff s1 ! 0)]\<rparr>
      in if getUtf8BuffLength s2 \<noteq> 0
         then (rc, s2\<lparr>getUtf8Buff :=
                 memmove (getUtf8Buff s2) 0 (bytesInCodePoint s2) (getUtf8BuffLength s2)\<rparr>)
         else (rc, s2))"

definition setCbuff2 :: "int \<Rightarrow> utf8_state \<Rightarrow> int \<times> utf8_state" where
  "setCbuff2 rc s = setCbuff1 rc (s\<lparr>cbuff := (cbuff s)[2 := word_of_int (getUtf8Buff s ! 2)]\<rparr>)"

definition setCbuff3 :: "int \<Rightarrow> utf8_state \<Rightarrow> int \<times> utf8_state" where
  "setCbuff3 rc s = setCbuff2 rc (s\<lparr>cbuff := (cbuff s)[3 := word_of_int (getUtf8Buff s ! 3)]\<rparr>)"

text \<open>The value that two, three and four bytes encode.\<close>

definition utf8_rc2 :: "int \<Rightarrow> int \<Rightarrow> int" where
  "utf8_rc2 b0 b1 = push_bit 6 (b0 AND 0x1F) OR (b1 AND 0x3F)"

definition utf8_rc3 :: "int \<Rightarrow> int \<Rightarrow> int \<Rightarrow> int" where
  "utf8_rc3 b0 b1 b2 = push_bit 12 (b0 AND 0x0F) OR push_bit 6 (b1 AND 0x3F) OR (b2 AND 0x3F)"

definition utf8_rc4 :: "int \<Rightarrow> int \<Rightarrow> int \<Rightarrow> int \<Rightarrow> int" where
  "utf8_rc4 b0 b1 b2 b3 =
     push_bit 18 (b0 AND 0x07) OR push_bit 12 (b1 AND 0x3F) OR
     push_bit 6 (b2 AND 0x3F) OR (b3 AND 0x3F)"

text \<open>The lead byte announces four bytes (or more).\<close>

definition utf8_lead4 :: "utf8_state \<Rightarrow> int \<times> utf8_state" where
  "utf8_lead4 s =
     (if \<not> (getUtf8Buff s ! 0 AND 0x8 \<noteq> 0) then
        (let s1 = (if 4 > getUtf8BuffLength s then read_into 3 s else s);
             b = getUtf8Buff s1;
             rc = utf8_rc4 (b ! 0) (b ! 1) (b ! 2) (b ! 3)
         in if b ! 3 AND 0xC0 = 0x80 \<and> 0xFFFF < rc \<and> 0x110000 > rc
            then setCbuff3 rc (s1\<lparr>bytesInCodePoint := 4, getUtf8BuffLength := 0\<rparr>)
            else utf8_fail3 (s1\<lparr>getUtf8BuffLength := 4\<rparr>))
      else utf8_fail3 s)"

text \<open>The lead byte announces three bytes or more.\<close>

definition utf8_lead3 :: "utf8_state \<Rightarrow> int \<times> utf8_state" where
  "utf8_lead3 s0 =
     (let s = (if 3 > getUtf8BuffLength s0 then read_into 2 s0 else s0);
          b = getUtf8Buff s;
          rc = utf8_rc3 (b ! 0) (b ! 1) (b ! 2)
      in
      if b ! 0 AND 0x10 \<noteq> 0 then utf8_lead4 s
      else if b ! 2 AND 0xC0 = 0x80 \<and> 0x7FF < rc \<and> (0xD800 > rc \<or> 0xDFFF < rc)
      then setCbuff2 rc
             (s\<lparr>bytesInCodePoint := 3,
                getUtf8BuffLength := (if getUtf8BuffLength s > 3 then 1 else 0)\<rparr>)
      else utf8_fail3 s)"

text \<open>The lead byte has its two highest bits set: at least two bytes are expected.\<close>

definition utf8_lead2 :: "utf8_state \<Rightarrow> int \<times> utf8_state" where
  "utf8_lead2 s0 =
     (let s = (if 2 > getUtf8BuffLength s0 then read_into 1 s0 else s0);
          b = getUtf8Buff s;
          rc = utf8_rc2 (b ! 0) (b ! 1)
      in
      if b ! 0 AND 0x20 \<noteq> 0 then utf8_lead3 s
      else if b ! 1 AND 0xC0 = 0x80 \<and> 0x7F < rc
      then setCbuff1 rc
             (s\<lparr>bytesInCodePoint := 2,
                getUtf8BuffLength :=
                  (if 1 < getUtf8BuffLength s then getUtf8BuffLength s - 2 else 0)\<rparr>)
      else utf8_fail (if 2 > getUtf8BuffLength s then s\<lparr>getUtf8BuffLength := 2\<rparr> else s))"

definition getUtf8CodePoint :: "utf8_state \<Rightarrow> int \<times> utf8_state" where
  "getUtf8CodePoint s0 =
     (let s = (if getUtf8BuffLength s0 = 0 then read_into 0 s0 else s0) in
      if -1 < getUtf8Buff s ! 0 then
        if getUtf8Buff s ! 0 AND 0x80 \<noteq> 0 then
          (if getUtf8Buff s ! 0 AND 0x40 \<noteq> 0 then utf8_lead2 s else utf8_fail s)
        else utf8_return_first
               (s\<lparr>bytesInCodePoint := 1,
                  cbuff := (cbuff s)[0 := word_of_int (getUtf8Buff s ! 0)]\<rparr>)
      else utf8_fail s)"

text \<open>The loop \<^verbatim>\<open>do { --n; getUtf8Buff[n] = cbuff[n]; } while(n);\<close> of the push-back.\<close>

function unget_bytes :: "utf8_state \<Rightarrow> utf8_state" where
  "unget_bytes s =
     (let n = bytesInCodePoint s - 1;
          s1 = s\<lparr>bytesInCodePoint := n, getUtf8Buff := (getUtf8Buff s)[n := uint (cbuff s ! n)]\<rparr>
      in if n \<noteq> 0 then unget_bytes s1 else s1)"
  by pat_completeness auto
termination
  by (relation "measure bytesInCodePoint") auto

declare unget_bytes.simps [simp del]

definition ungetUtf8CodePoint :: "int \<Rightarrow> utf8_state \<Rightarrow> utf8_state" where
  "ungetUtf8CodePoint uc s =
     (if bytesInCodePoint s \<noteq> 0 then
        (let s1 = (if getUtf8BuffLength s \<noteq> 0
                   then s\<lparr>getUtf8Buff :=
                          memmove (getUtf8Buff s) (bytesInCodePoint s) 0 (getUtf8BuffLength s)\<rparr>
                   else s);
             s2 = s1\<lparr>getUtf8BuffLength := getUtf8BuffLength s1 + bytesInCodePoint s1\<rparr>
         in unget_bytes s2)
      else
        (let s1 = (if getUtf8BuffLength s = 0 then s\<lparr>getUtf8BuffLength := 1\<rparr>
                   else if 4 > getUtf8BuffLength s
                   then s\<lparr>getUtf8Buff := memmove (getUtf8Buff s) 1 0 (getUtf8BuffLength s),
                          getUtf8BuffLength := getUtf8BuffLength s + 1\<rparr>
                   else s)
         in s1\<lparr>getUtf8Buff := (getUtf8Buff s1)[0 := uc]\<rparr>))"

text \<open>The state in which \<open>main\<close> enters the UTF-8 loop: nothing read ahead.\<close>

definition utf8_init :: "byte list \<Rightarrow> utf8_state" where
  "utf8_init inp =
     \<lparr>stdin = inp, stdout = [], getUtf8Buff = [0, 0, 0, 0], getUtf8BuffLength = 0,
      cbuff = [0, 0, 0, 0], bytesInCodePoint = 0\<rparr>"


subsection \<open>The main loop in a UTF-8 locale\<close>

text \<open>
  \<^verbatim>\<open>ungetUtf8CodePoint((nextc = getUtf8CodePoint()))\<close>: look at the next code point
  and push it back.
\<close>

definition utf8_peek :: "utf8_state \<Rightarrow> int \<times> utf8_state" where
  "utf8_peek s = (case getUtf8CodePoint s of (nextc, s1) \<Rightarrow> (nextc, ungetUtf8CodePoint nextc s1))"

text \<open>\<^verbatim>\<open>'7' >= nextc && '0' <= nextc\<close>\<close>

definition is_octal_digit :: "int \<Rightarrow> bool" where
  "is_octal_digit nextc \<longleftrightarrow> 0x37 \<ge> nextc \<and> 0x30 \<le> nextc"

text \<open>\<^verbatim>\<open>bytesInCodePoint && iswprintFn((wint_t)c)\<close>\<close>

definition utf8_isPrintable :: "platform \<Rightarrow> flags \<Rightarrow> int \<Rightarrow> utf8_state \<Rightarrow> bool" where
  "utf8_isPrintable p f c s \<longleftrightarrow> bytesInCodePoint s \<noteq> 0 \<and> call_iswprintFn p (iswprintFn f) c"

text \<open>
  The body of the loop that runs inside \<^verbatim>\<open>$'...'\<close>: the output for one code point.
  The result says whether the body left the loop by its \<open>break\<close>.
\<close>

definition utf8_escape :: "platform \<Rightarrow> flags \<Rightarrow> int \<Rightarrow> bool \<Rightarrow> utf8_state \<Rightarrow> bool \<times> utf8_state" where
  "utf8_escape p f c isPrintable s =
     (if isPrintable then
        (if 0x5C = c then (False, emit p [backslash, backslash] s)
         else if 0x27 = c then (False, emit p [backslash, quote] s)
         else if bytesInCodePoint s \<noteq> 0
         then (False, emit p (take (bytesInCodePoint s) (cbuff s)) s)
         else (False, putc p c s))
      else if 128 > c \<or> bytesInCodePoint s = 0 then
        (if hasAnsiEscape (ansiEscapesLimit f) c then (False, emit p (fmt_ansi c) s)
         else if 0x3F < c then (False, emit p (fmt_octal3 c) s)
         else (case utf8_peek s of (nextc, s1) \<Rightarrow>
                 (False, emit p (if is_octal_digit nextc then fmt_octal3 c else fmt_octal c) s1)))
      else if \<not> useUnicodeEscapes f then
        (False, fold (\<lambda>b. emit p (fmt_octal3 (uint b))) (take (bytesInCodePoint s) (cbuff s)) s)
      else if 65535 \<ge> c then
        (if 0xFFF < c then (False, emit p (fmt_u4 c) s)
         else (case utf8_peek s of (nextc, s1) \<Rightarrow>
                 (False, emit p (if nextc \<le> 0x66 \<and> isxdigit nextc then fmt_u4 c else fmt_u c) s1)))
      else
        (case utf8_peek (emit p (fmt_U c) s) of (nextc, s1) \<Rightarrow>
           (nextc \<le> 0x66 \<and> isxdigit nextc, s1)))"

text \<open>
  The separator written between two records, in the condition of the outer loop:
  its value is the one of \<open>lc\<close> (\<open>rc\<close> in the ASCII loop).
\<close>

definition write_separator ::
  "platform \<Rightarrow> flags \<Rightarrow> ('c::len word, 'a) io_scheme \<Rightarrow> bool \<times> ('c word, 'a) io_scheme" where
  "write_separator p f s =
     (if ignoreNullInput f then (True, s)
      else if nullTerminatedOutput f then
        (case fwrite p [0] s of (ok, s1) \<Rightarrow> (ok \<and> (\<not> flushArguments f \<or> fflush p s1), s1))
      else fwrite p [0x20] s)"

text \<open>
  The places of the loop where control can stand between two steps: the top of the
  outer and of the inner \<open>do\<close>, the label \<open>utf8StartEscape\<close>, the body of the escape
  loop and its condition, the closing quote after it, the end of the inner body,
  and the condition of the outer loop.
\<close>

datatype place = OuterTop | InnerTop | StartEscape | EscBody | EscNext | AfterEsc | InnerNext
  | OuterCond

text \<open>
  One equation per place; the first argument bounds the number of steps. The locals
  \<open>c\<close> and \<open>isPrintable\<close> are arguments. The result is the final state; the exit
  status of this path is always 0.
\<close>

fun utf8_loop ::
  "platform \<Rightarrow> flags \<Rightarrow> nat \<Rightarrow> place \<Rightarrow> int \<Rightarrow> bool \<Rightarrow> utf8_state \<Rightarrow> utf8_state option" where
  "utf8_loop p f 0 pl c isPrintable s = None"
| "utf8_loop p f (Suc n) OuterTop c isPrintable s =
     (if 0 < c then utf8_loop p f n InnerTop c isPrintable s
      else utf8_loop p f n OuterCond c isPrintable (emit p [quote, quote] s))"
| "utf8_loop p f (Suc n) InnerTop c isPrintable s =
     (let pr = utf8_isPrintable p f c s in
      if \<not> pr \<or> isShControl c then
        (if 0x27 = c then utf8_loop p f n InnerNext c pr (emit p [backslash, quote] s)
         else utf8_loop p f n StartEscape c pr s)
      else utf8_loop p f n InnerNext c pr (emit p (take (bytesInCodePoint s) (cbuff s)) s))"
| "utf8_loop p f (Suc n) StartEscape c isPrintable s =
     utf8_loop p f n EscBody c isPrintable (emit p [0x24, quote] s)"
| "utf8_loop p f (Suc n) EscBody c isPrintable s =
     (case utf8_escape p f c isPrintable s of
        (brk, s1) \<Rightarrow>
          if brk then utf8_loop p f n AfterEsc c isPrintable s1
          else utf8_loop p f n EscNext c isPrintable s1)"
| "utf8_loop p f (Suc n) EscNext c isPrintable s =
     (case getUtf8CodePoint s of
        (c1, s1) \<Rightarrow>
          if 0 < c1 then utf8_loop p f n EscBody c1 (utf8_isPrintable p f c1 s1) s1
          else utf8_loop p f n AfterEsc c1 isPrintable s1)"
| "utf8_loop p f (Suc n) AfterEsc c isPrintable s =
     (let s1 = putc p 0x27 s in
      if 0 \<ge> c then utf8_loop p f n OuterCond c isPrintable s1
      else utf8_loop p f n InnerNext c isPrintable s1)"
| "utf8_loop p f (Suc n) InnerNext c isPrintable s =
     (case getUtf8CodePoint s of
        (c1, s1) \<Rightarrow>
          if 0 < c1 then utf8_loop p f n InnerTop c1 isPrintable s1
          else utf8_loop p f n OuterCond c1 isPrintable s1)"
| "utf8_loop p f (Suc n) OuterCond c isPrintable s =
     (if 0 = c then
        (case getUtf8CodePoint s of
           (c1, s1) \<Rightarrow>
             if EOF \<noteq> c1 then
               (case write_separator p f s1 of
                  (lc, s2) \<Rightarrow>
                    if 0x7E = c1 \<and> lc then utf8_loop p f n StartEscape c1 True s2
                    else if lc then utf8_loop p f n OuterTop c1 isPrintable s2
                    else Some s2)
             else Some (if nullTerminatedOutput f then putc p 0 s1 else s1))
      else Some (if ignoreNullInput f \<and> nullTerminatedOutput f then putc p 0 s else s))"

text \<open>
  The UTF-8 branch of \<open>main\<close>, from the first \<open>getUtf8CodePoint\<close> on. \<open>isPrintable\<close>
  is not initialised there; the loop assigns it before it reads it.
\<close>

definition utf8_main :: "platform \<Rightarrow> flags \<Rightarrow> nat \<Rightarrow> utf8_state \<Rightarrow> utf8_state option" where
  "utf8_main p f n s0 =
     (case getUtf8CodePoint s0 of
        (c, s) \<Rightarrow>
          if 0x7E = c then utf8_loop p f n StartEscape c True s
          else utf8_loop p f n OuterTop c False s)"

text \<open>Nine steps and eight for every byte of input are enough for the loop to end.\<close>

definition utf8_engine :: "platform \<Rightarrow> flags \<Rightarrow> byte list \<Rightarrow> byte list option" where
  "utf8_engine p f inp =
     map_option stdout (utf8_main p f (8 * length inp + 9) (utf8_init inp))"


subsection \<open>The main loop in the C locale\<close>

text \<open>
  The loop that reads bytes: the one of a locale whose character set is ASCII, of a
  failed \<open>setlocale\<close>, and of a UTF-8 locale when \<^verbatim>\<open>--minimal\<close> disables the
  \<^verbatim>\<open>$'...'\<close> quoting.
\<close>

text \<open>\<^verbatim>\<open>ungetc((nextc = getc_unlocked(stdin)), stdin)\<close>\<close>

definition ascii_peek :: "(byte, 'a) io_scheme \<Rightarrow> int \<times> (byte, 'a) io_scheme" where
  "ascii_peek s = (case getc s of (nextc, s1) \<Rightarrow> (nextc, ungetc nextc s1))"

text \<open>The body of the loop inside \<^verbatim>\<open>$'...'\<close>: the output for one byte.\<close>

definition ascii_escape ::
  "platform \<Rightarrow> flags \<Rightarrow> int \<Rightarrow> bool \<Rightarrow> (byte, 'a) io_scheme \<Rightarrow> (byte, 'a) io_scheme" where
  "ascii_escape p f c isPrintable s =
     (if isPrintable then
        (if 0x5C = c then emit p [backslash, backslash] s
         else if 0x27 = c then emit p [backslash, quote] s
         else putc p c s)
      else if hasAnsiEscape (ansiEscapesLimit f) c then emit p (fmt_ansi c) s
      else if 0x3F < c then emit p (fmt_octal3 c) s
      else (case ascii_peek s of (nextc, s1) \<Rightarrow>
              emit p (if is_octal_digit nextc then fmt_octal3 c else fmt_octal c) s1))"

text \<open>
  The places of the loops that can quote with \<^verbatim>\<open>'...'\<close> as well: those of the UTF-8
  loop, and the body of the loop inside \<^verbatim>\<open>'...'\<close>.
\<close>

datatype qplace = QOuterTop | QInnerTop | QStartEscape | QRawBody | QEscBody | QEscNext
  | QAfterEsc | QInnerNext | QOuterCond

fun qrank :: "qplace \<Rightarrow> nat" where
  "qrank QOuterTop = 7"
| "qrank QInnerTop = 6"
| "qrank QStartEscape = 5"
| "qrank QRawBody = 4"
| "qrank QEscBody = 4"
| "qrank QEscNext = 3"
| "qrank QAfterEsc = 2"
| "qrank QInnerNext = 1"
| "qrank QOuterCond = 0"

text \<open>What the termination of the loop rests on: reading shortens the input.\<close>

lemma getc_cases:
  obtains (eof) "stdin s = []" "getc s = (EOF, s)"
  | (byte) b bs where "stdin s = b # bs" "getc s = (uint b, s\<lparr>stdin := bs\<rparr>)" "0 \<le> uint b"
  by (cases "stdin s") (simp_all add: getc_def)

lemma getc_le: "getc s = (c1, s1) \<Longrightarrow> length (stdin s1) \<le> length (stdin s)"
  by (cases s rule: getc_cases) auto

lemma getc_less: "getc s = (c1, s1) \<Longrightarrow> c1 \<noteq> EOF \<Longrightarrow> length (stdin s1) < length (stdin s)"
  by (cases s rule: getc_cases) auto

lemma getc_pos: "getc s = (c1, s1) \<Longrightarrow> 0 < c1 \<Longrightarrow> length (stdin s1) < length (stdin s)"
  by (rule getc_less) (auto simp: EOF_def)

lemma getc_not_pos: "getc s = (c1, s1) \<Longrightarrow> 0 < c1 \<longrightarrow> c1 = k \<Longrightarrow>
  8 * length (stdin s1) < Suc (Suc (8 * length (stdin s)))"
  by (drule getc_le) simp

lemma stdin_emit [simp]: "stdin (emit p bs s) = stdin s"
  by (simp add: emit_def fwrite_def)

lemma stdin_putc [simp]: "stdin (putc p c s) = stdin s"
  by (simp add: putc_def)

lemma stdin_ascii_peek [simp]: "stdin (snd (ascii_peek s)) = stdin s"
proof (cases s rule: getc_cases)
  case eof
  then show ?thesis by (simp add: ascii_peek_def ungetc_def)
next
  case (byte b bs)
  from byte(3) have "uint b \<noteq> EOF" unfolding EOF_def by linarith
  with byte show ?thesis by (simp add: ascii_peek_def ungetc_def)
qed

lemma stdin_ascii_escape [simp]: "stdin (ascii_escape p f c pr s) = stdin s"
  by (simp add: ascii_escape_def split_beta)

lemma stdin_write_separator [simp]: "stdin (snd (write_separator p f s)) = stdin s"
  by (simp add: write_separator_def fwrite_def split_beta)

function ascii_loop ::
  "platform \<Rightarrow> flags \<Rightarrow> qplace \<Rightarrow> int \<Rightarrow> bool \<Rightarrow> byte io \<Rightarrow> byte io" where
  "ascii_loop p f QOuterTop c isPrintable s =
     (if 0 < c then ascii_loop p f QInnerTop c isPrintable s
      else ascii_loop p f QOuterCond c isPrintable (emit p [quote, quote] s))"
| "ascii_loop p f QInnerTop c isPrintable s =
     (let pr = (disableCQuoting f \<or> isprint p c) in
      if isShControl c \<or> \<not> pr then ascii_loop p f QStartEscape c pr s
      else ascii_loop p f QInnerNext c pr (putc p c s))"
| "ascii_loop p f QStartEscape c isPrintable s =
     (if 0x27 = c then ascii_loop p f QInnerNext c isPrintable (emit p [backslash, quote] s)
      else if disableCQuoting f then ascii_loop p f QRawBody c isPrintable (putc p 0x27 s)
      else ascii_loop p f QEscBody c isPrintable (emit p [0x24, quote] s))"
| "ascii_loop p f QRawBody c isPrintable s =
     (case getc (putc p c s) of
        (c1, s1) \<Rightarrow>
          if 0 < c1 \<and> 0x27 \<noteq> c1 then ascii_loop p f QRawBody c1 isPrintable s1
          else ascii_loop p f QAfterEsc c1 isPrintable s1)"
| "ascii_loop p f QEscBody c isPrintable s =
     ascii_loop p f QEscNext c isPrintable (ascii_escape p f c isPrintable s)"
| "ascii_loop p f QEscNext c isPrintable s =
     (case getc s of
        (c1, s1) \<Rightarrow>
          if 0 < c1 then ascii_loop p f QEscBody c1 (isprint p c1) s1
          else ascii_loop p f QAfterEsc c1 isPrintable s1)"
| "ascii_loop p f QAfterEsc c isPrintable s =
     (let s1 = putc p 0x27 s in
      if 0x27 = c then ascii_loop p f QInnerNext c isPrintable (emit p [backslash, quote] s1)
      else if 0 \<ge> c then ascii_loop p f QOuterCond c isPrintable s1
      else ascii_loop p f QInnerNext c isPrintable s1)"
| "ascii_loop p f QInnerNext c isPrintable s =
     (case getc s of
        (c1, s1) \<Rightarrow>
          if 0 < c1 then ascii_loop p f QInnerTop c1 isPrintable s1
          else ascii_loop p f QOuterCond c1 isPrintable s1)"
| "ascii_loop p f QOuterCond c isPrintable s =
     (if 0 = c then
        (case getc s of
           (c1, s1) \<Rightarrow>
             if EOF \<noteq> c1 then
               (case write_separator p f s1 of
                  (rc, s2) \<Rightarrow>
                    if 0x7E = c1 \<and> rc then ascii_loop p f QStartEscape c1 True s2
                    else if rc then ascii_loop p f QOuterTop c1 isPrintable s2
                    else s2)
             else (if nullTerminatedOutput f then putc p 0 s1 else s1))
      else (if ignoreNullInput f \<and> nullTerminatedOutput f then putc p 0 s else s))"
  by pat_completeness auto
termination
  apply (relation "measure (\<lambda>(p, f, pl, c, isPrintable, s). 8 * length (stdin s) + qrank pl)")
  apply simp_all
  subgoal for p c s x y using getc_pos [of "putc p c s" x y] by simp
  subgoal for p c s x y using getc_le [of "putc p c s" x y] by simp
  subgoal for s x y using getc_pos [of s x y] by simp
  subgoal for s x y using getc_le [of s x y] by simp
  subgoal for s x y using getc_pos [of s x y] by simp
  subgoal for s x y using getc_le [of s x y] by simp
  subgoal for p f c s y xa ya
    using getc_less [of s 126 y] stdin_write_separator [of p f y] by (simp add: split_beta)
  subgoal for p f c s x y xa ya
    using getc_less [of s x y] stdin_write_separator [of p f y] by (cases "write_separator p f y") simp
  done

text \<open>
  The branch of \<open>main\<close> for these locales, from the first \<open>getc_unlocked\<close> on; its
  exit status is always 0. \<open>isPrintable\<close> is not initialised there; the loop assigns
  it before it reads it.
\<close>

definition ascii_main :: "platform \<Rightarrow> flags \<Rightarrow> byte io \<Rightarrow> byte io" where
  "ascii_main p f s0 =
     (case getc s0 of
        (c, s) \<Rightarrow>
          if 0x7E = c then ascii_loop p f QStartEscape c True s
          else ascii_loop p f QOuterTop c False s)"

definition ascii_engine :: "platform \<Rightarrow> flags \<Rightarrow> byte list \<Rightarrow> byte list" where
  "ascii_engine p f inp = stdout (ascii_main p f \<lparr>stdin = inp, stdout = []\<rparr>)"

subsection \<open>The main loop in the other locales\<close>

text \<open>
  In a locale that is neither ASCII nor UTF-8 the program reads and writes wide
  characters with the C library, which decodes and encodes them. The input is the
  list of the wide characters that \<open>getwc_unlocked\<close> will return; \<open>decode_error\<close>
  says that the library then fails to decode what follows them, which it reports as
  \<open>WEOF\<close> with \<open>errno\<close> set to \<open>EILSEQ\<close>. \<open>wint_t\<close> is unsigned and has 32 bits; a
  wide character is one of the values of \<open>wchar_t\<close> that are not negative, which
  take 31 bits, so that none of them is \<open>WEOF\<close>.
\<close>

type_synonym wchar = "31 word"

record wide_state = "wchar io" +
  decode_error :: bool
  errno :: int

definition WEOF :: int where
  "WEOF = 0xFFFFFFFF"

definition getwc :: "wide_state \<Rightarrow> int \<times> wide_state" where
  "getwc s =
     (case stdin s of
        [] \<Rightarrow> (WEOF, if decode_error s then s\<lparr>errno := EILSEQ\<rparr> else s)
      | w # ws \<Rightarrow> (uint w, s\<lparr>stdin := ws\<rparr>))"

definition ungetwc :: "int \<Rightarrow> wide_state \<Rightarrow> wide_state" where
  "ungetwc c s = (if c = WEOF then s else s\<lparr>stdin := word_of_int c # stdin s\<rparr>)"

definition wide_peek :: "wide_state \<Rightarrow> int \<times> wide_state" where
  "wide_peek s = (case getwc s of (nextc, s1) \<Rightarrow> (nextc, ungetwc nextc s1))"

text \<open>
  The UTF-8 encoding that the loop computes for a code point from 128 on: the
  elements of the local \<open>cbuff\<close> from \<open>cbuffPtr\<close> to the zero that ends them.
\<close>

definition wide_cbuff :: "int \<Rightarrow> int list" where
  "wide_cbuff c =
     (let b5 = (c AND 0xBF) OR 0x80 in
      if 0x800 > c then [0xC0 OR drop_bit 6 c, b5]
      else
        (let b4 = (drop_bit 6 c AND 0xBF) OR 0x80 in
         if 0x10000 > c then [0xE0 OR drop_bit 12 c, b4, b5]
         else
           (let b3 = (drop_bit 12 c AND 0xBF) OR 0x80 in
            if 0x200000 > c then [0xF0 OR drop_bit 18 c, b3, b4, b5]
            else
              (let b2 = (drop_bit 18 c AND 0xBF) OR 0x80 in
               if 0x4000000 > c then [0xF8 OR drop_bit 24 c, b2, b3, b4, b5]
               else [0xFC OR (if c \<ge> 0x40000000 then 1 else 0),
                     (drop_bit 24 c AND 0xBF) OR 0x80, b2, b3, b4, b5]))))"

text \<open>The body of the loop inside \<^verbatim>\<open>$'...'\<close>, and whether it left the loop by \<open>break\<close>.\<close>

definition wide_escape ::
  "platform \<Rightarrow> flags \<Rightarrow> int \<Rightarrow> bool \<Rightarrow> wide_state \<Rightarrow> bool \<times> wide_state" where
  "wide_escape p f c isPrintable s =
     (if isPrintable then
        (if 0x5C = c then (False, emit p [backslash, backslash] s)
         else if 0x27 = c then (False, emit p [backslash, quote] s)
         else (False, putc p c s))
      else if 128 > c then
        (if hasAnsiEscape (ansiEscapesLimit f) c then (False, emit p (fmt_ansi c) s)
         else if 0x3F < c then (False, emit p (fmt_octal3 c) s)
         else (case wide_peek s of (nextc, s1) \<Rightarrow>
                 (False, emit p (if is_octal_digit nextc then fmt_octal3 c else fmt_octal c) s1)))
      else if \<not> useUnicodeEscapes f then
        (False, fold (\<lambda>b. emit p (fmt_octal3 b)) (wide_cbuff c) s)
      else if sizeof_wchar_t p > 2 then
        (if 65535 \<ge> c then
           (if 0xFFF < c then (False, emit p (fmt_u4 c) s)
            else (case wide_peek s of (nextc, s1) \<Rightarrow>
                    (False, emit p (if isxdigit nextc then fmt_u4 c else fmt_u c) s1)))
         else
           (case wide_peek (emit p (fmt_U c) s) of (nextc, s1) \<Rightarrow> (isxdigit nextc, s1)))
      else
        (if 0xFFF < c then (False, emit p (fmt_u4 c) s)
         else (case wide_peek s of (nextc, s1) \<Rightarrow>
                 (False, emit p (if isxdigit nextc then fmt_u4 c else fmt_u c) s1))))"

lemma uint_wchar: "0 \<le> uint (w::wchar) \<and> uint w < 0x80000000 \<and> uint w \<noteq> WEOF"
proof -
  have "0 \<le> uint w" by simp
  moreover have "uint w < 0x80000000" using uint_lt2p [of w] by simp
  ultimately show ?thesis unfolding WEOF_def by linarith
qed

lemma getwc_cases:
  obtains (eof) s1 where "stdin s = []" "getwc s = (WEOF, s1)" "stdin s1 = []"
  | (wc) w ws where "stdin s = w # ws" "getwc s = (uint w, s\<lparr>stdin := ws\<rparr>)" "uint w \<noteq> WEOF"
  using uint_wchar by (cases "stdin s") (simp_all add: getwc_def)

lemma getwc_le: "getwc s = (c1, s1) \<Longrightarrow> length (stdin s1) \<le> length (stdin s)"
  by (cases s rule: getwc_cases) auto

lemma getwc_less:
  "getwc s = (c1, s1) \<Longrightarrow> c1 \<noteq> WEOF \<Longrightarrow> length (stdin s1) < length (stdin s)"
  by (cases s rule: getwc_cases) auto

lemma stdin_wide_peek [simp]: "stdin (snd (wide_peek s)) = stdin s"
proof (cases s rule: getwc_cases)
  case (eof s1)
  then show ?thesis by (simp add: wide_peek_def ungetwc_def)
next
  case (wc w ws)
  then show ?thesis by (simp add: wide_peek_def ungetwc_def)
qed

lemma stdin_fold_emit [simp]: "stdin (fold (\<lambda>b. emit p (g b)) xs s) = stdin s"
  by (induction xs arbitrary: s) simp_all

lemma stdin_wide_escape [simp]: "stdin (snd (wide_escape p f c pr s)) = stdin s"
  by (simp add: wide_escape_def split_beta)

lemma stdin_wide_escape': "(brk, s1) = wide_escape p f c pr s \<Longrightarrow> stdin s1 = stdin s"
  using stdin_wide_escape [of p f c pr s] by (cases "wide_escape p f c pr s") simp

function wide_loop ::
  "platform \<Rightarrow> flags \<Rightarrow> qplace \<Rightarrow> int \<Rightarrow> bool \<Rightarrow> wide_state \<Rightarrow> wide_state" where
  "wide_loop p f QOuterTop c isPrintable s =
     (if 0 \<noteq> c \<and> WEOF \<noteq> c then wide_loop p f QInnerTop c isPrintable s
      else wide_loop p f QOuterCond c isPrintable (emit p [quote, quote] s))"
| "wide_loop p f QInnerTop c isPrintable s =
     (let pr = (disableCQuoting f \<or> call_iswprintFn p (iswprintFn f) c) in
      if isShControl c \<or> \<not> pr then wide_loop p f QStartEscape c pr s
      else wide_loop p f QInnerNext c pr (putc p c s))"
| "wide_loop p f QStartEscape c isPrintable s =
     (if 0x27 = c then wide_loop p f QInnerNext c isPrintable (emit p [backslash, quote] s)
      else if disableCQuoting f then wide_loop p f QRawBody c isPrintable (putc p 0x27 s)
      else wide_loop p f QEscBody c isPrintable (emit p [0x24, quote] s))"
| "wide_loop p f QRawBody c isPrintable s =
     (case getwc (putc p c s) of
        (c1, s1) \<Rightarrow>
          if 0 \<noteq> c1 \<and> WEOF \<noteq> c1 \<and> 0x27 \<noteq> c1 then wide_loop p f QRawBody c1 isPrintable s1
          else wide_loop p f QAfterEsc c1 isPrintable s1)"
| "wide_loop p f QEscBody c isPrintable s =
     (case wide_escape p f c isPrintable s of
        (brk, s1) \<Rightarrow>
          if brk then wide_loop p f QAfterEsc c isPrintable s1
          else wide_loop p f QEscNext c isPrintable s1)"
| "wide_loop p f QEscNext c isPrintable s =
     (case getwc s of
        (c1, s1) \<Rightarrow>
          if 0 \<noteq> c1 \<and> WEOF \<noteq> c1
          then wide_loop p f QEscBody c1 (call_iswprintFn p (iswprintFn f) c1) s1
          else wide_loop p f QAfterEsc c1 isPrintable s1)"
| "wide_loop p f QAfterEsc c isPrintable s =
     (let s1 = putc p 0x27 s in
      if 0x27 = c then wide_loop p f QInnerNext c isPrintable (emit p [backslash, quote] s1)
      else if 0 = c \<or> WEOF = c then wide_loop p f QOuterCond c isPrintable s1
      else wide_loop p f QInnerNext c isPrintable s1)"
| "wide_loop p f QInnerNext c isPrintable s =
     (case getwc s of
        (c1, s1) \<Rightarrow>
          if 0 \<noteq> c1 \<and> WEOF \<noteq> c1 then wide_loop p f QInnerTop c1 isPrintable s1
          else wide_loop p f QOuterCond c1 isPrintable s1)"
| "wide_loop p f QOuterCond c isPrintable s =
     (if 0 = c then
        (case getwc s of
           (c1, s1) \<Rightarrow>
             if WEOF \<noteq> c1 then
               (case write_separator p f s1 of
                  (lc, s2) \<Rightarrow>
                    if 0x7E = c1 \<and> lc then wide_loop p f QStartEscape c1 True s2
                    else if lc then wide_loop p f QOuterTop c1 isPrintable s2
                    else s2)
             else (if nullTerminatedOutput f then putc p 0 s1 else s1))
      else (if ignoreNullInput f \<and> nullTerminatedOutput f then putc p 0 s else s))"
  by pat_completeness auto
termination
  apply (relation "measure (\<lambda>(p, f, pl, c, isPrintable, s). 8 * length (stdin s) + qrank pl)")
  apply simp_all
  subgoal for p c s x y using getwc_less [of "putc p c s" x y] by simp
  subgoal for p c s x y using getwc_le [of "putc p c s" x y] by simp
  subgoal for p f c isPrintable s x y by (drule stdin_wide_escape') simp
  subgoal for p f c isPrintable s x y by (drule stdin_wide_escape') simp
  subgoal for s x y using getwc_less [of s x y] by simp
  subgoal for s x y using getwc_le [of s x y] by simp
  subgoal for s x y using getwc_less [of s x y] by simp
  subgoal for s x y using getwc_le [of s x y] by simp
  subgoal for p f c s y xa ya
    using getwc_less [of s 126 y] stdin_write_separator [of p f y] by (simp add: split_beta)
  subgoal for p f c s x y xa ya
    using getwc_less [of s x y] stdin_write_separator [of p f y] by (cases "write_separator p f y") simp
  done

text \<open>
  The branch of \<open>main\<close> for these locales, from the first \<open>getwc_unlocked\<close> on, and
  its exit status; \<open>errno\<close> is taken to be 0 when the loop starts.
\<close>

definition wide_main :: "platform \<Rightarrow> flags \<Rightarrow> wide_state \<Rightarrow> int \<times> wide_state" where
  "wide_main p f s0 =
     (case getwc s0 of
        (c, s) \<Rightarrow>
          (let s' = (if 0x7E = c then wide_loop p f QStartEscape c True s
                     else wide_loop p f QOuterTop c False s)
           in (if EILSEQ = errno s' then EILSEQ else 0, s')))"

definition wide_init :: "wchar list \<Rightarrow> bool \<Rightarrow> wide_state" where
  "wide_init inp bad = \<lparr>stdin = inp, stdout = [], decode_error = bad, errno = 0\<rparr>"

definition wide_engine :: "platform \<Rightarrow> flags \<Rightarrow> wchar list \<Rightarrow> bool \<Rightarrow> int \<times> wchar list" where
  "wide_engine p f inp bad = (case wide_main p f (wide_init inp bad) of (rc, s) \<Rightarrow> (rc, stdout s))"

subsection \<open>The whole program\<close>

text \<open>
  With arguments, \<open>main\<close> forks: the parent writes every argument and a null byte
  after it into a pipe, and the child runs the loop on the pipe. For two arguments
  or more the parent writes through a stream, and checks the result of \<open>putc\<close>
  only; the result is whether it wrote everything, and what is in the pipe.
\<close>

fun feed_stream :: "platform \<Rightarrow> byte list list \<Rightarrow> byte list \<Rightarrow> bool \<times> byte list" where
  "feed_stream p [] pipe = (True, pipe)"
| "feed_stream p (a # as) pipe =
     (let pipe1 = (if pipe_ok p (length pipe) then pipe @ a else pipe) in
      if pipe_ok p (length pipe1) then feed_stream p as (pipe1 @ [0]) else (False, pipe1))"

text \<open>
  For one argument the parent calls \<open>write\<close> until the argument and its null byte
  are written; a \<open>write\<close> that writes a part only is not modelled.
\<close>

definition feed_args :: "platform \<Rightarrow> byte list list \<Rightarrow> bool \<times> byte list" where
  "feed_args p args =
     (case args of
        [a] \<Rightarrow> if pipe_ok p 0 then (True, a @ [0]) else (False, [])
      | _ \<Rightarrow> if fdopen_ok p then feed_stream p args [] else (False, []))"

text \<open>
  The choice of the loop: the exit status and the output, or \<open>None\<close> when the steps
  granted to the UTF-8 loop do not suffice (which does not happen).
\<close>

definition engine :: "platform \<Rightarrow> flags \<Rightarrow> byte list \<Rightarrow> (int \<times> byte list) option" where
  "engine p f inp =
     (let localeIsNotUtf8 = (codeset p \<noteq> ''UTF-8'') in
      if \<not> setlocale_ok p \<or> (\<not> localeIsNotUtf8 \<and> disableCQuoting f) \<or>
         (localeIsNotUtf8 \<and> codeset p = ''ANSI_X3.4-1968'')
      then Some (0, ascii_engine p f inp)
      else if localeIsNotUtf8 then
        (case decode_wide p inp of
           (ws, bad) \<Rightarrow>
             (case wide_engine p f ws bad of
                (rc, out) \<Rightarrow> Some (rc, concat (map (encode_wide p) out))))
      else map_option (Pair 0) (utf8_engine p f inp))"

text \<open>
  \<open>main\<close>: the options that \<open>getopt_long\<close> returns, the arguments that are not
  options, and standard input. The parent returns the exit status of the child, or
  \<open>EX_IOERR\<close> at once when it could not write; the child still runs on what is in
  the pipe.
\<close>

definition main :: "platform \<Rightarrow> opt list \<Rightarrow> byte list list \<Rightarrow> byte list \<Rightarrow> (int \<times> byte list) option" where
  "main p opts args inp =
     (case parse_options opts initial_flags of
        Inl rc \<Rightarrow> Some (rc, [])
      | Inr f \<Rightarrow>
          if args \<noteq> [] then
            (let f1 = f\<lparr>ignoreNullInput := False\<rparr> in
             if \<not> pipe_fork_ok p then Some (EX_OSERR, [])
             else
               (case feed_args p args of
                  (ok, pipe) \<Rightarrow>
                    map_option (\<lambda>(rc, out). (if ok then rc else EX_IOERR, out)) (engine p f1 pipe)))
          else engine p f inp)"


text \<open>The platform \<open>p\<close> with an output device on which no write fails.\<close>

definition reliable :: "platform \<Rightarrow> platform" where
  "reliable p = p\<lparr>stdout_ok := (\<lambda>n. True)\<rparr>"

text \<open>The platform \<open>p\<close> with a UTF-8 locale.\<close>

definition in_utf8_locale :: "platform \<Rightarrow> platform" where
  "in_utf8_locale p = p\<lparr>setlocale_ok := True, codeset := ''UTF-8''\<rparr>"


subsection \<open>A platform for the examples\<close>

text \<open>
  The theorems hold for every platform. Where one of them is evaluated on an input,
  this is the platform: a UTF-8 locale whose library finds printable the ASCII
  characters from the space to the tilde and all code points from U+00A0 on, with
  wide characters of four bytes, and on which no call fails.
\<close>

definition example_platform :: platform where
  "example_platform =
     \<lparr>isprint = (\<lambda>c. 0x20 \<le> c \<and> c \<le> 0x7E),
      iswprint = (\<lambda>c. (0x20 \<le> c \<and> c \<le> 0x7E) \<or> 0xA0 \<le> c),
      iswspace = (\<lambda>c. c = 0x20 \<or> (9 \<le> c \<and> c \<le> 13)),
      sizeof_wchar_t = 4, setlocale_ok = True, codeset = ''UTF-8'',
      decode_wide = (\<lambda>bs. (map ucast bs, False)), encode_wide = (\<lambda>w. [ucast w]),
      stdout_ok = (\<lambda>n. True), pipe_fork_ok = True, fdopen_ok = True, pipe_ok = (\<lambda>n. True)\<rparr>"


subsection \<open>What the decoder has to do\<close>

text \<open>
  The definitions of this part are not translations of the source: they say what a
  state of the decoder stands for, and the results are stated with them.
  \<open>sget bs i\<close> is what the \<open>i\<close>-th call of \<open>getc\<close> returns on the input \<open>bs\<close>.
\<close>

definition sget :: "byte list \<Rightarrow> nat \<Rightarrow> int" where
  "sget bs i = (if i < length bs then uint (bs ! i) else -1)"

text \<open>
  \<open>avail n s bs\<close>: the input that remains is \<open>bs\<close>, its first \<open>n\<close> bytes (or \<open>EOF\<close>s
  after its end) stand in \<open>getUtf8Buff\<close> and the others are still in \<open>stdin\<close>.
  \<open>holds s bs\<close>: it is so with the \<open>getUtf8BuffLength\<close> elements that the buffer
  is said to hold.
\<close>

definition avail :: "nat \<Rightarrow> utf8_state \<Rightarrow> byte list \<Rightarrow> bool" where
  "avail n s bs \<longleftrightarrow>
     length (getUtf8Buff s) = 4 \<and> length (cbuff s) = 4 \<and> n \<le> 4 \<and>
     take n (getUtf8Buff s) = take n [sget bs 0, sget bs 1, sget bs 2, sget bs 3] \<and>
     stdin s = drop n bs"

definition holds :: "utf8_state \<Rightarrow> byte list \<Rightarrow> bool" where
  "holds s bs \<longleftrightarrow> avail (getUtf8BuffLength s) s bs"

text \<open>
  The result of \<open>getUtf8CodePoint\<close> as a function of the remaining input: the value
  returned and \<open>bytesInCodePoint\<close>, by the tests of the source in their order.
\<close>

definition utf8_decode :: "byte list \<Rightarrow> int \<times> nat" where
  "utf8_decode bs =
     (let b0 = sget bs 0; b1 = sget bs 1; b2 = sget bs 2; b3 = sget bs 3 in
      if -1 < b0 then
        if b0 AND 0x80 \<noteq> 0 then
          if b0 AND 0x40 \<noteq> 0 then
            if b0 AND 0x20 \<noteq> 0 then
              if b0 AND 0x10 \<noteq> 0 then
                if \<not> (b0 AND 0x8 \<noteq> 0) then
                  if b3 AND 0xC0 = 0x80 \<and> 0xFFFF < utf8_rc4 b0 b1 b2 b3 \<and> 0x110000 > utf8_rc4 b0 b1 b2 b3
                  then (utf8_rc4 b0 b1 b2 b3, 4) else (b0, 0)
                else (b0, 0)
              else if b2 AND 0xC0 = 0x80 \<and> 0x7FF < utf8_rc3 b0 b1 b2 \<and>
                      (0xD800 > utf8_rc3 b0 b1 b2 \<or> 0xDFFF < utf8_rc3 b0 b1 b2)
              then (utf8_rc3 b0 b1 b2, 3) else (b0, 0)
            else if b1 AND 0xC0 = 0x80 \<and> 0x7F < utf8_rc2 b0 b1 then (utf8_rc2 b0 b1, 2) else (b0, 0)
          else (b0, 0)
        else (b0, 1)
      else (b0, 0))"

text \<open>
  \<open>post out d bs r\<close>: the result \<open>r\<close> of a call on the remaining input \<open>bs\<close> is the
  decoding \<open>d\<close>, the bytes of the code point are in \<open>cbuff\<close>, the input after it
  remains, there is room to push the code point back, and the output is \<open>out\<close>.
\<close>

definition post :: "byte list \<Rightarrow> int \<times> nat \<Rightarrow> byte list \<Rightarrow> int \<times> utf8_state \<Rightarrow> bool" where
  "post out d bs r \<longleftrightarrow>
     fst r = fst d \<and> bytesInCodePoint (snd r) = snd d \<and>
     holds (snd r) (drop (max 1 (snd d)) bs) \<and>
     getUtf8BuffLength (snd r) + max 1 (snd d) \<le> 4 \<and>
     stdout (snd r) = out \<and>
     take (snd d) (cbuff (snd r)) =
       take (snd d) (map word_of_int [sget bs 0, sget bs 1, sget bs 2, sget bs 3])"


text \<open>
  The bytes of the unit that a call of \<open>getUtf8CodePoint\<close> returned: the bytes of the
  code point in \<open>cbuff\<close>, or the returned value itself when \<open>bytesInCodePoint\<close> is 0.
\<close>

definition unit_bytes :: "int \<Rightarrow> utf8_state \<Rightarrow> byte list" where
  "unit_bytes rc s =
     (if bytesInCodePoint s \<noteq> 0 then take (bytesInCodePoint s) (cbuff s) else [word_of_int rc])"

text \<open>
  The units that successive calls return up to the end of the input; the first
  argument bounds the number of calls.
\<close>

fun utf8_units :: "nat \<Rightarrow> utf8_state \<Rightarrow> byte list list option" where
  "utf8_units 0 s = None"
| "utf8_units (Suc n) s =
     (case getUtf8CodePoint s of
        (rc, s') \<Rightarrow> if rc < 0 then Some [] else map_option ((#) (unit_bytes rc s')) (utf8_units n s'))"

text \<open>
  The next call decodes the code point \<open>v\<close> from the bytes \<open>enc\<close>; the next call fails
  on the lead byte \<open>b\<close> and returns it as it is.
\<close>

definition decodes_to :: "utf8_state \<Rightarrow> int \<Rightarrow> byte list \<Rightarrow> bool" where
  "decodes_to s v enc \<longleftrightarrow>
     (case getUtf8CodePoint s of
        (rc, s') \<Rightarrow> rc = v \<and> bytesInCodePoint s' = length enc \<and> take (length enc) (cbuff s') = enc)"

definition decode_fails :: "utf8_state \<Rightarrow> byte \<Rightarrow> bool" where
  "decode_fails s b \<longleftrightarrow>
     (case getUtf8CodePoint s of (rc, s') \<Rightarrow> rc = uint b \<and> bytesInCodePoint s' = 0)"

text \<open>A continuation byte: \<open>10xxxxxx\<close>.\<close>

definition is_cont :: "byte \<Rightarrow> bool" where
  "is_cont b \<longleftrightarrow> 0x80 \<le> uint b \<and> uint b \<le> 0xBF"


text \<open>
  What decreases from one step of the UTF-8 loop to the next: eight times the length
  of the input that remains, plus the rank of the place.
\<close>

fun rank :: "place \<Rightarrow> nat" where
  "rank OuterTop = 7"
| "rank InnerTop = 6"
| "rank StartEscape = 5"
| "rank EscBody = 4"
| "rank EscNext = 3"
| "rank AfterEsc = 2"
| "rank InnerNext = 1"
| "rank OuterCond = 0"


section \<open>Facts about a standard output that accepts every write\<close>

lemma reliable_simps [simp]:
  "stdout_ok (reliable p) n" "iswprint (reliable p) = iswprint p" "isprint (reliable p) = isprint p"
  "iswspace (reliable p) = iswspace p" "sizeof_wchar_t (reliable p) = sizeof_wchar_t p"
  "setlocale_ok (reliable p) = setlocale_ok p" "codeset (reliable p) = codeset p"
  by (simp_all add: reliable_def)

lemma emit_reliable [simp]: "emit (reliable p) bs s = s\<lparr>stdout := stdout s @ bs\<rparr>"
  by (simp add: emit_def fwrite_def)

lemma putc_reliable [simp]: "putc (reliable p) c s = s\<lparr>stdout := stdout s @ [word_of_int c]\<rparr>"
  by (simp add: putc_def)


section \<open>The digits that the formats print\<close>

lemma fmt_o_small: "n < 8 \<Longrightarrow> fmt_o n = [digit_char n]"
  by (simp add: fmt_o.simps)

lemma fmt_o_2: "8 \<le> n \<Longrightarrow> n < 64 \<Longrightarrow> fmt_o n = [digit_char (n div 8), digit_char (n mod 8)]"
  by (subst fmt_o.simps) (simp add: fmt_o_small)

lemma fmt_o_3: "64 \<le> n \<Longrightarrow> n < 512 \<Longrightarrow>
  fmt_o n = [digit_char (n div 64), digit_char (n div 8 mod 8), digit_char (n mod 8)]"
proof -
  assume a: "64 \<le> n" "n < 512"
  have d: "n div 8 div 8 = n div 64"
    by (simp add: div_mult2_eq [symmetric])
  from a have "8 \<le> n div 8" "n div 8 < 64" by auto
  from fmt_o_2 [OF this] a d show ?thesis
    by (subst fmt_o.simps) simp
qed

lemma fmt_octal3_eq:
  assumes "0 \<le> c" "c < 512"
  shows "fmt_octal3 c = [backslash, digit_char (nat c div 64), digit_char (nat c div 8 mod 8),
    digit_char (nat c mod 8)]"
proof -
  consider "nat c < 8" | "8 \<le> nat c" "nat c < 64" | "64 \<le> nat c" "nat c < 512"
    using assms by linarith
  then show ?thesis
  proof cases
    case 1
    then show ?thesis
      by (simp add: fmt_octal3_def precision_def fmt_o_small digit_char_def numeral_3_eq_3)
  next
    case 2
    then show ?thesis
      by (simp add: fmt_octal3_def precision_def fmt_o_2 digit_char_def numeral_3_eq_3)
  next
    case 3
    then show ?thesis
      by (simp add: fmt_octal3_def precision_def fmt_o_3)
  qed
qed

lemma fmt_octal_length: "0 \<le> c \<Longrightarrow> c \<le> 0x3F \<Longrightarrow> length (fmt_o (nat c)) \<le> 2"
proof -
  assume "0 \<le> c" "c \<le> 0x3F"
  then consider "nat c < 8" | "8 \<le> nat c" "nat c < 64" by linarith
  then show ?thesis by cases (simp_all add: fmt_o_small fmt_o_2)
qed


section \<open>The flags that the options set\<close>

lemma parse_options_flags:
  "parse_options os f = Inr f' \<Longrightarrow>
     ansiEscapesLimit f' = (if OptU \<in> set os then 28 else ansiEscapesLimit f) \<and>
     useUnicodeEscapes f' = (OptU \<in> set os \<or> useUnicodeEscapes f) \<and>
     disableCQuoting f' = (OptM \<in> set os \<or> disableCQuoting f) \<and>
     ignoreNullInput f' = (OptN \<in> set os \<or> ignoreNullInput f) \<and>
     nullTerminatedOutput f' = (OptZ \<in> set os \<or> OptF \<in> set os \<or> nullTerminatedOutput f) \<and>
     flushArguments f' = (OptF \<in> set os \<or> flushArguments f)"
  by (induction os f rule: parse_options.induct) (auto simp: ansiEscapes_def split: if_splits)

lemma ansi_limit: "parse_options os initial_flags = Inr f \<Longrightarrow> ansiEscapesLimit f \<le> 28"
  by (drule parse_options_flags) (simp add: initial_flags_def)

lemma no_ansi_escape_high: "limit \<le> 28 \<Longrightarrow> 28 \<le> c \<Longrightarrow> \<not> hasAnsiEscape limit c"
  by (simp add: hasAnsiEscape_def)


section \<open>Option processing: which classifier is in effect\<close>

lemma parse_options_iswprintFn:
  "parse_options os f = Inr f' \<Longrightarrow>
   iswprintFn f' =
     (if OptE \<in> set os \<or> iswprintFn f = IswNotBlank then IswNotBlank
      else if OptI \<in> set os then IswprintExt else iswprintFn f)"
proof (induction os f rule: parse_options.induct)
  case (5 os f)
  then show ?case by (cases "iswprintFn f") (auto split: if_splits)
qed (auto split: if_splits)

text \<open>
  Claim C8, as stated: with both escape-more and escape-invisible on the command line
  the classifier of the run is the one of whichever option was parsed first. It fails
  for escape-invisible followed by escape-more: the run uses \<open>iswNotBlank\<close>, the
  classifier of the option parsed second, not the one that escape-invisible alone selects.
\<close>

theorem C8_first_parsed_wins_counterexample:
  "policy_of [OptI, OptE] = Some IswNotBlank \<and> policy_of [OptI] = Some IswprintExt \<and>
   policy_of [OptI, OptE] \<noteq> policy_of [OptI]"
  by (simp add: policy_of_def initial_flags_def)

text \<open>
  Claim C8, amended: when escape-more is given, the classifier of the run is
  \<open>iswNotBlank\<close> wherever escape-invisible stands on the command line, before or
  after it; once \<open>iswNotBlank\<close> has been selected no later option replaces it.
  Without escape-more, escape-invisible selects \<open>iswprintExt\<close>.
\<close>

theorem C8_escape_more_always_wins:
  "parse_options os initial_flags = Inr f' \<Longrightarrow>
   iswprintFn f' =
     (if OptE \<in> set os then IswNotBlank else if OptI \<in> set os then IswprintExt else Iswprint)"
  by (drule parse_options_iswprintFn) (simp add: initial_flags_def)

theorem C8_escape_more_always_wins_witness:
  "parse_options [OptI, OptE, OptZ] initial_flags =
     Inr (initial_flags\<lparr>iswprintFn := IswNotBlank, nullTerminatedOutput := True\<rparr>) \<and>
   iswprintFn (initial_flags\<lparr>iswprintFn := IswNotBlank, nullTerminatedOutput := True\<rparr>) =
     (if OptE \<in> set [OptI, OptE, OptZ] then IswNotBlank
      else if OptI \<in> set [OptI, OptE, OptZ] then IswprintExt else Iswprint)"
proof -
  have a: "parse_options [OptI, OptE, OptZ] initial_flags =
      Inr (initial_flags\<lparr>iswprintFn := IswNotBlank, nullTerminatedOutput := True\<rparr>)"
    by (simp add: initial_flags_def)
  from C8_escape_more_always_wins [OF a] a show ?thesis
    by blast
qed


section \<open>The decoder consumes its input in order\<close>

lemma getc_alt: "getc s = (sget (stdin s) 0, s\<lparr>stdin := drop 1 (stdin s)\<rparr>)"
  by (cases "stdin s") (simp_all add: getc_def sget_def EOF_def)

lemma sget_drop: "sget (drop k bs) i = sget bs (i + k)"
  by (auto simp: sget_def add.commute)

lemma list4: "length xs = 4 \<Longrightarrow> \<exists>a b c d. xs = [a, b, c, d]"
  by (cases xs; simp; cases "tl xs"; simp; cases "tl (tl xs)"; simp; cases "tl (tl (tl xs))"; simp) 

lemma le4_cases: "n \<le> (4::nat) \<Longrightarrow> n = 0 \<or> n = 1 \<or> n = 2 \<or> n = 3 \<or> n = 4"
  by arith

lemma avail_nth: "avail n s bs \<Longrightarrow> i < n \<Longrightarrow> getUtf8Buff s ! i = sget bs i"
proof -
  assume a: "avail n s bs" and i: "i < n"
  then have "take n (getUtf8Buff s) ! i = take n [sget bs 0, sget bs 1, sget bs 2, sget bs 3] ! i"
    by (simp add: avail_def)
  moreover from a i have "i = 0 \<or> i = 1 \<or> i = 2 \<or> i = 3" by (auto simp: avail_def)
  ultimately show ?thesis using i by auto
qed

lemma fetch:
  assumes a: "avail (max k (getUtf8BuffLength s)) s bs" and k: "k < 4"
  defines "s' \<equiv> (if Suc k > getUtf8BuffLength s then read_into k s else s)"
  shows "avail (max (Suc k) (getUtf8BuffLength s)) s' bs \<and>
         getUtf8BuffLength s' = getUtf8BuffLength s \<and> cbuff s' = cbuff s \<and>
         stdout s' = stdout s \<and> bytesInCodePoint s' = bytesInCodePoint s"
proof (cases "Suc k > getUtf8BuffLength s")
  case False
  then have "max k (getUtf8BuffLength s) = max (Suc k) (getUtf8BuffLength s)" by simp
  with a False show ?thesis by (simp add: s'_def)
next
  case True
  then have m: "max k (getUtf8BuffLength s) = k" "max (Suc k) (getUtf8BuffLength s) = Suc k" by simp_all
  obtain a0 b c d where buf: "getUtf8Buff s = [a0, b, c, d]"
    using a list4 [of "getUtf8Buff s"] by (auto simp: avail_def)
  from k have "k = 0 \<or> k = 1 \<or> k = 2 \<or> k = 3" by arith
  with a True buf show ?thesis
    unfolding s'_def m
    by (auto simp: avail_def read_into_def getc_alt sget_drop eval_nat_numeral)
qed

lemma return_first_spec:
  assumes a: "avail (max 1 (getUtf8BuffLength s)) s bs" and n: "getUtf8BuffLength s \<le> 4"
    and d: "d = (sget bs 0, bytesInCodePoint s)" and b: "bytesInCodePoint s \<le> 1"
    and c: "bytesInCodePoint s = 1 \<Longrightarrow> cbuff s ! 0 = word_of_int (sget bs 0)"
  shows "post (stdout s) d bs (utf8_return_first s)"
proof -
  obtain a0 b0 c0 d0 where buf: "getUtf8Buff s = [a0, b0, c0, d0]"
    using a list4 [of "getUtf8Buff s"] by (auto simp: avail_def)
  obtain e f g h where cb: "cbuff s = [e, f, g, h]"
    using a list4 [of "cbuff s"] by (auto simp: avail_def)
  from b have bb: "bytesInCodePoint s = 0 \<or> bytesInCodePoint s = 1" by arith
  from le4_cases [OF n] a buf cb d bb c show ?thesis
    by (auto simp: post_def holds_def avail_def utf8_return_first_def Let_def memmove_def
        sget_drop eval_nat_numeral)
qed


lemma avail_upd [simp]:
  "avail n (s\<lparr>bytesInCodePoint := k\<rparr>) bs = avail n s bs"
  "avail n (s\<lparr>getUtf8BuffLength := m\<rparr>) bs = avail n s bs"
  by (simp_all add: avail_def)

lemma fail_spec:
  assumes "avail (max 1 (getUtf8BuffLength s)) s bs" "getUtf8BuffLength s \<le> 4"
    "d = (sget bs 0, 0)"
  shows "post (stdout s) d bs (utf8_fail s)"
  unfolding utf8_fail_def using assms
  by (intro return_first_spec [THEN back_subst [where P = "\<lambda>out. post out d bs _"]]) simp_all

lemma fail3_spec:
  assumes a: "avail (max 3 (getUtf8BuffLength s)) s bs" and n: "getUtf8BuffLength s \<le> 4"
    and d: "d = (sget bs 0, 0)"
  shows "post (stdout s) d bs (utf8_fail3 s)"
proof (cases "3 > getUtf8BuffLength s")
  case True
  with a have "avail (max 1 (getUtf8BuffLength (s\<lparr>getUtf8BuffLength := 3\<rparr>))) (s\<lparr>getUtf8BuffLength := 3\<rparr>) bs"
    by (simp add: max_def)
  from fail_spec [OF this _ d] True show ?thesis by (simp add: utf8_fail3_def)
next
  case False
  with a have "avail (max 1 (getUtf8BuffLength s)) s bs" by (simp add: max_def)
  from fail_spec [OF this n d] False show ?thesis by (simp add: utf8_fail3_def)
qed

lemma setCbuff_spec:
  assumes a: "avail (getUtf8BuffLength s + k) s bs" and b: "bytesInCodePoint s = k"
    and d: "d = (rc, k)"
  shows "k = 2 \<Longrightarrow> post (stdout s) d bs (setCbuff1 rc s)"
    and "k = 3 \<Longrightarrow> post (stdout s) d bs (setCbuff2 rc s)"
    and "k = 4 \<Longrightarrow> post (stdout s) d bs (setCbuff3 rc s)"
proof -
  obtain a0 b0 c0 d0 where buf: "getUtf8Buff s = [a0, b0, c0, d0]"
    using a list4 [of "getUtf8Buff s"] by (auto simp: avail_def)
  obtain e f g h where cb: "cbuff s = [e, f, g, h]"
    using a list4 [of "cbuff s"] by (auto simp: avail_def)
  from a have n: "getUtf8BuffLength s + k \<le> 4" by (simp add: avail_def)
  {
    assume k: "k = 2"
    with n have "getUtf8BuffLength s = 0 \<or> getUtf8BuffLength s = 1 \<or> getUtf8BuffLength s = 2" by arith
    with a b d k buf cb show "post (stdout s) d bs (setCbuff1 rc s)"
      by (auto simp: post_def holds_def avail_def setCbuff1_def Let_def memmove_def
        sget_drop eval_nat_numeral)
  next
    assume k: "k = 3"
    with n have "getUtf8BuffLength s = 0 \<or> getUtf8BuffLength s = 1" by arith
    with a b d k buf cb show "post (stdout s) d bs (setCbuff2 rc s)"
      by (auto simp: post_def holds_def avail_def setCbuff1_def setCbuff2_def Let_def memmove_def
        sget_drop eval_nat_numeral)
  next
    assume k: "k = 4"
    with n have "getUtf8BuffLength s = 0" by arith
    with a b d k buf cb show "post (stdout s) d bs (setCbuff3 rc s)"
      by (auto simp: post_def holds_def avail_def setCbuff1_def setCbuff2_def setCbuff3_def
        Let_def memmove_def sget_drop eval_nat_numeral)
  }
qed


lemma lead4_spec:
  assumes a: "avail (max 3 (getUtf8BuffLength s)) s bs" and n: "getUtf8BuffLength s \<le> 4"
    and bits: "-1 < sget bs 0" "sget bs 0 AND 0x80 \<noteq> 0" "sget bs 0 AND 0x40 \<noteq> 0"
      "sget bs 0 AND 0x20 \<noteq> 0" "sget bs 0 AND 0x10 \<noteq> 0"
  shows "post (stdout s) (utf8_decode bs) bs (utf8_lead4 s)"
proof (cases "sget bs 0 AND 0x8 \<noteq> 0")
  case True
  have b0: "getUtf8Buff s ! 0 = sget bs 0" using avail_nth [OF a, of 0] by simp
  from True bits have d: "utf8_decode bs = (sget bs 0, 0)" by (simp add: utf8_decode_def)
  from fail3_spec [OF a n d] True b0 show ?thesis by (simp add: utf8_lead4_def)
next
  case False
  define s1 where "s1 = (if 4 > getUtf8BuffLength s then read_into 3 s else s)"
  from n have m: "max (Suc 3) (getUtf8BuffLength s) = 4" by simp
  from fetch [OF a, simplified m] have f: "avail 4 s1 bs" "getUtf8BuffLength s1 = getUtf8BuffLength s"
      "stdout s1 = stdout s"
    by (simp_all add: s1_def)
  have b: "getUtf8Buff s1 ! 0 = sget bs 0" "getUtf8Buff s1 ! 1 = sget bs 1"
    "getUtf8Buff s1 ! 2 = sget bs 2" "getUtf8Buff s1 ! 3 = sget bs 3"
    using avail_nth [OF f(1)] by simp_all
  have b0: "getUtf8Buff s ! 0 = sget bs 0" using avail_nth [OF a, of 0] by simp
  let ?rc = "utf8_rc4 (sget bs 0) (sget bs 1) (sget bs 2) (sget bs 3)"
  show ?thesis
  proof (cases "sget bs 3 AND 0xC0 = 0x80 \<and> 0xFFFF < ?rc \<and> 0x110000 > ?rc")
    case True
    with False bits have d: "utf8_decode bs = (?rc, 4)" by (simp add: utf8_decode_def)
    have "post (stdout (s1\<lparr>bytesInCodePoint := 4, getUtf8BuffLength := 0\<rparr>)) (utf8_decode bs) bs
        (setCbuff3 ?rc (s1\<lparr>bytesInCodePoint := 4, getUtf8BuffLength := 0\<rparr>))"
      by (rule setCbuff_spec(3) [where k = 4]) (use f d in simp_all)
    with True False b b0 f show ?thesis
      by (simp add: utf8_lead4_def Let_def s1_def [symmetric])
  next
    case c: False
    with False bits have d: "utf8_decode bs = (sget bs 0, 0)" by (auto simp: utf8_decode_def)
    have "post (stdout (s1\<lparr>getUtf8BuffLength := 4\<rparr>)) (utf8_decode bs) bs
        (utf8_fail3 (s1\<lparr>getUtf8BuffLength := 4\<rparr>))"
      by (rule fail3_spec) (use f d in simp_all)
    with c False b b0 f show ?thesis
      by (auto simp add: utf8_lead4_def Let_def s1_def [symmetric])
  qed
qed

lemma lead3_spec:
  assumes a: "avail (max 2 (getUtf8BuffLength s)) s bs" and n: "getUtf8BuffLength s \<le> 4"
    and bits: "-1 < sget bs 0" "sget bs 0 AND 0x80 \<noteq> 0" "sget bs 0 AND 0x40 \<noteq> 0"
      "sget bs 0 AND 0x20 \<noteq> 0"
  shows "post (stdout s) (utf8_decode bs) bs (utf8_lead3 s)"
proof -
  define s1 where "s1 = (if 3 > getUtf8BuffLength s then read_into 2 s else s)"
  have m: "Suc 2 = 3" by simp
  from fetch [OF a, simplified m] have f: "avail (max 3 (getUtf8BuffLength s1)) s1 bs"
      "getUtf8BuffLength s1 = getUtf8BuffLength s" "stdout s1 = stdout s"
    by (simp_all add: s1_def)
  have b: "getUtf8Buff s1 ! 0 = sget bs 0" "getUtf8Buff s1 ! 1 = sget bs 1"
    "getUtf8Buff s1 ! 2 = sget bs 2"
    using avail_nth [OF f(1)] by simp_all
  let ?rc = "utf8_rc3 (sget bs 0) (sget bs 1) (sget bs 2)"
  show ?thesis
  proof (cases "sget bs 0 AND 0x10 \<noteq> 0")
    case True
    from lead4_spec [OF f(1)] n f bits True have "post (stdout s) (utf8_decode bs) bs (utf8_lead4 s1)"
      by simp
    with True b show ?thesis
      by (simp add: utf8_lead3_def Let_def s1_def [symmetric])
  next
    case False
    show ?thesis
    proof (cases "sget bs 2 AND 0xC0 = 0x80 \<and> 0x7FF < ?rc \<and> (0xD800 > ?rc \<or> 0xDFFF < ?rc)")
      case True
      with False bits have d: "utf8_decode bs = (?rc, 3)" by (simp add: utf8_decode_def)
      let ?s2 = "s1\<lparr>bytesInCodePoint := 3,
                getUtf8BuffLength := (if getUtf8BuffLength s1 > 3 then 1 else 0)\<rparr>"
      have "post (stdout ?s2) (utf8_decode bs) bs (setCbuff2 ?rc ?s2)"
      proof (rule setCbuff_spec(2) [where k = 3])
        from f n have "getUtf8BuffLength ?s2 + 3 = max 3 (getUtf8BuffLength s1)"
          by (auto simp: max_def)
        with f show "avail (getUtf8BuffLength ?s2 + 3) ?s2 bs"
          by simp
      qed (use d in simp_all)
      with True False b f show ?thesis
        by (simp add: utf8_lead3_def Let_def s1_def [symmetric])
    next
      case c: False
      with False bits have d: "utf8_decode bs = (sget bs 0, 0)" by (auto simp: utf8_decode_def)
      have "post (stdout s1) (utf8_decode bs) bs (utf8_fail3 s1)"
        by (rule fail3_spec) (use f d n in simp_all)
      with c False b f show ?thesis
        by (auto simp add: utf8_lead3_def Let_def s1_def [symmetric])
    qed
  qed
qed

lemma lead2_spec:
  assumes a: "avail (max 1 (getUtf8BuffLength s)) s bs" and n: "getUtf8BuffLength s \<le> 4"
    and bits: "-1 < sget bs 0" "sget bs 0 AND 0x80 \<noteq> 0" "sget bs 0 AND 0x40 \<noteq> 0"
  shows "post (stdout s) (utf8_decode bs) bs (utf8_lead2 s)"
proof -
  define s1 where "s1 = (if 2 > getUtf8BuffLength s then read_into 1 s else s)"
  have m: "Suc 1 = 2" by simp
  from fetch [OF a, simplified m] have f: "avail (max 2 (getUtf8BuffLength s1)) s1 bs"
      "getUtf8BuffLength s1 = getUtf8BuffLength s" "stdout s1 = stdout s"
    by (simp_all add: s1_def)
  have b: "getUtf8Buff s1 ! 0 = sget bs 0" "getUtf8Buff s1 ! 1 = sget bs 1"
    using avail_nth [OF f(1)] by simp_all
  let ?rc = "utf8_rc2 (sget bs 0) (sget bs 1)"
  show ?thesis
  proof (cases "sget bs 0 AND 0x20 \<noteq> 0")
    case True
    from lead3_spec [OF f(1)] n f bits True have "post (stdout s) (utf8_decode bs) bs (utf8_lead3 s1)"
      by simp
    with True b show ?thesis
      by (simp add: utf8_lead2_def Let_def s1_def [symmetric])
  next
    case False
    show ?thesis
    proof (cases "sget bs 1 AND 0xC0 = 0x80 \<and> 0x7F < ?rc")
      case True
      with False bits have d: "utf8_decode bs = (?rc, 2)" by (simp add: utf8_decode_def)
      let ?s2 = "s1\<lparr>bytesInCodePoint := 2,
                getUtf8BuffLength :=
                  (if 1 < getUtf8BuffLength s1 then getUtf8BuffLength s1 - 2 else 0)\<rparr>"
      have "post (stdout ?s2) (utf8_decode bs) bs (setCbuff1 ?rc ?s2)"
      proof (rule setCbuff_spec(1) [where k = 2])
        from f n have "getUtf8BuffLength ?s2 + 2 = max 2 (getUtf8BuffLength s1)"
          by (auto simp: max_def)
        with f show "avail (getUtf8BuffLength ?s2 + 2) ?s2 bs"
          by simp
      qed (use d in simp_all)
      with True False b f show ?thesis
        by (simp add: utf8_lead2_def Let_def s1_def [symmetric])
    next
      case c: False
      with False bits have d: "utf8_decode bs = (sget bs 0, 0)" by (auto simp: utf8_decode_def)
      let ?s2 = "if 2 > getUtf8BuffLength s1 then s1\<lparr>getUtf8BuffLength := 2\<rparr> else s1"
      have "post (stdout ?s2) (utf8_decode bs) bs (utf8_fail ?s2)"
        by (rule fail_spec) (use f d n in \<open>auto simp: max_def\<close>)
      with c False b f show ?thesis
        by (auto simp add: utf8_lead2_def Let_def s1_def [symmetric])
    qed
  qed
qed

lemma get_spec:
  assumes h: "holds s bs" and n: "getUtf8BuffLength s \<le> 4"
  shows "post (stdout s) (utf8_decode bs) bs (getUtf8CodePoint s)"
proof -
  define s1 where "s1 = (if getUtf8BuffLength s = 0 then read_into 0 s else s)"
  have s1: "s1 = (if Suc 0 > getUtf8BuffLength s then read_into 0 s else s)"
    by (simp add: s1_def)
  from h have a: "avail (max 0 (getUtf8BuffLength s)) s bs" by (simp add: holds_def)
  from fetch [OF a, folded s1] have f: "avail (max 1 (getUtf8BuffLength s1)) s1 bs"
      "getUtf8BuffLength s1 = getUtf8BuffLength s" "stdout s1 = stdout s"
    by simp_all
  have b: "getUtf8Buff s1 ! 0 = sget bs 0"
    using avail_nth [OF f(1)] by simp
  show ?thesis
  proof (cases "-1 < sget bs 0")
    case False
    then have d: "utf8_decode bs = (sget bs 0, 0)" by (simp add: utf8_decode_def)
    from fail_spec [OF f(1) _ d] n f False b show ?thesis
      by (simp add: getUtf8CodePoint_def Let_def s1_def [symmetric])
  next
    case True
    show ?thesis
    proof (cases "sget bs 0 AND 0x80 \<noteq> 0")
      case hi: True
      show ?thesis
      proof (cases "sget bs 0 AND 0x40 \<noteq> 0")
        case True
        from lead2_spec [OF f(1)] n f \<open>-1 < sget bs 0\<close> hi True b show ?thesis
          by (simp add: getUtf8CodePoint_def Let_def s1_def [symmetric])
      next
        case False
        with hi \<open>-1 < sget bs 0\<close> have d: "utf8_decode bs = (sget bs 0, 0)"
          by (simp add: utf8_decode_def)
        from fail_spec [OF f(1) _ d] n f False hi \<open>-1 < sget bs 0\<close> b show ?thesis
          by (simp add: getUtf8CodePoint_def Let_def s1_def [symmetric])
      qed
    next
      case False
      with \<open>-1 < sget bs 0\<close> have d: "utf8_decode bs = (sget bs 0, 1)"
        by (simp add: utf8_decode_def)
      let ?s2 = "s1\<lparr>bytesInCodePoint := 1,
                  cbuff := (cbuff s1)[0 := word_of_int (getUtf8Buff s1 ! 0)]\<rparr>"
      have "post (stdout ?s2) (utf8_decode bs) bs (utf8_return_first ?s2)"
      proof (rule return_first_spec)
        from f(1) show "avail (max 1 (getUtf8BuffLength ?s2)) ?s2 bs"
          by (simp add: avail_def)
        from f(1) b show "cbuff ?s2 ! 0 = word_of_int (sget bs 0)"
          by (simp add: avail_def)
      qed (use d f n in simp_all)
      with False \<open>-1 < sget bs 0\<close> b f show ?thesis
        by (simp add: getUtf8CodePoint_def Let_def s1_def [symmetric])
    qed
  qed
qed


subsection \<open>Consequences for one call\<close>

lemma holds_init: "holds (utf8_init inp) inp"
  by (simp add: holds_def avail_def utf8_init_def)

lemma get_post:
  assumes "holds s bs"
  shows "post (stdout s) (utf8_decode bs) bs (getUtf8CodePoint s)"
  using assms get_spec [of s bs] by (simp add: holds_def avail_def)

lemma get_fst: "holds s bs \<Longrightarrow> fst (getUtf8CodePoint s) = fst (utf8_decode bs)"
  by (drule get_post) (simp add: post_def)

lemma get_bytes: "holds s bs \<Longrightarrow> bytesInCodePoint (snd (getUtf8CodePoint s)) = snd (utf8_decode bs)"
  by (drule get_post) (simp add: post_def)

lemma get_holds:
  "holds s bs \<Longrightarrow> holds (snd (getUtf8CodePoint s)) (drop (max 1 (snd (utf8_decode bs))) bs)"
  by (drule get_post) (simp add: post_def)

lemma get_stdout: "holds s bs \<Longrightarrow> stdout (snd (getUtf8CodePoint s)) = stdout s"
  by (drule get_post) (simp add: post_def)

lemma sget_nil [simp]: "sget [] i = -1"
  by (simp add: sget_def)

lemma sget_Cons_0 [simp]: "sget (b # bs) 0 = uint b"
  by (simp add: sget_def)

lemma sget_Cons_Suc [simp]: "sget (b # bs) (Suc i) = sget bs i"
  by (simp add: sget_def)

lemma uint_byte_range: "-1 < uint (b::byte) \<and> 0 \<le> uint b \<and> uint b < 256"
proof -
  have "0 \<le> uint b" by simp
  moreover have "uint b < 256" using uint_lt2p [of b] by simp
  ultimately show ?thesis by linarith
qed

lemma sget_range: "-1 \<le> sget bs i \<and> sget bs i < 256"
  using uint_byte_range [of "bs ! i"] by (cases "i < length bs") (simp_all add: sget_def)

lemma sget_cont: "sget bs i AND 0xC0 = 0x80 \<Longrightarrow> i < length bs"
  by (rule ccontr) (simp add: sget_def)

lemma sget_nonneg: "-1 < sget bs i \<Longrightarrow> i < length bs"
  by (rule ccontr) (simp add: sget_def)

lemma decode_nil [simp]: "utf8_decode [] = (-1, 0)"
  by (simp add: utf8_decode_def)

text \<open>The six ways a call can end.\<close>

lemma decode_cases:
  obtains
    (eof) "bs = []" "utf8_decode bs = (-1, 0)"
  | (ascii) "-1 < sget bs 0" "sget bs 0 AND 0x80 = 0" "utf8_decode bs = (sget bs 0, 1)"
  | (raw) "-1 < sget bs 0" "sget bs 0 AND 0x80 \<noteq> 0" "utf8_decode bs = (sget bs 0, 0)"
  | (two) "-1 < sget bs 0" "sget bs 1 AND 0xC0 = 0x80" "0x7F < utf8_rc2 (sget bs 0) (sget bs 1)"
      "utf8_decode bs = (utf8_rc2 (sget bs 0) (sget bs 1), 2)"
  | (three) "-1 < sget bs 0" "sget bs 2 AND 0xC0 = 0x80"
      "0x7FF < utf8_rc3 (sget bs 0) (sget bs 1) (sget bs 2)"
      "utf8_decode bs = (utf8_rc3 (sget bs 0) (sget bs 1) (sget bs 2), 3)"
  | (four) "-1 < sget bs 0" "sget bs 3 AND 0xC0 = 0x80"
      "0xFFFF < utf8_rc4 (sget bs 0) (sget bs 1) (sget bs 2) (sget bs 3)"
      "utf8_decode bs = (utf8_rc4 (sget bs 0) (sget bs 1) (sget bs 2) (sget bs 3), 4)"
proof (cases "-1 < sget bs 0")
  case False
  have "bs = []"
  proof (cases bs)
    case (Cons a r)
    have "0 \<le> uint a" by simp
    with False Cons show ?thesis by simp
  qed
  with eof show ?thesis by simp
next
  case nn: True
  show ?thesis
  proof (cases "sget bs 0 AND 0x80 \<noteq> 0")
    case False
    with nn ascii show ?thesis by (simp add: utf8_decode_def)
  next
    case hi: True
    show ?thesis
    proof (cases "sget bs 0 AND 0x40 \<noteq> 0")
      case False
      with nn hi raw show ?thesis by (simp add: utf8_decode_def)
    next
      case b40: True
      show ?thesis
      proof (cases "sget bs 0 AND 0x20 \<noteq> 0")
        case False
        show ?thesis
        proof (cases "sget bs 1 AND 0xC0 = 0x80 \<and> 0x7F < utf8_rc2 (sget bs 0) (sget bs 1)")
          case True
          with nn hi b40 False two show ?thesis by (simp add: utf8_decode_def)
        next
          case c: False
          with nn hi b40 False have "utf8_decode bs = (sget bs 0, 0)"
            by (auto simp: utf8_decode_def)
          with nn hi raw show ?thesis by simp
        qed
      next
        case b20: True
        show ?thesis
        proof (cases "sget bs 0 AND 0x10 \<noteq> 0")
          case False
          let ?rc = "utf8_rc3 (sget bs 0) (sget bs 1) (sget bs 2)"
          show ?thesis
          proof (cases "sget bs 2 AND 0xC0 = 0x80 \<and> 0x7FF < ?rc \<and> (0xD800 > ?rc \<or> 0xDFFF < ?rc)")
            case True
            with nn hi b40 b20 False three show ?thesis by (simp add: utf8_decode_def)
          next
            case c: False
            with nn hi b40 b20 False have "utf8_decode bs = (sget bs 0, 0)"
              by (auto simp: utf8_decode_def)
            with nn hi raw show ?thesis by simp
          qed
        next
          case b10: True
          let ?rc = "utf8_rc4 (sget bs 0) (sget bs 1) (sget bs 2) (sget bs 3)"
          show ?thesis
          proof (cases "sget bs 0 AND 0x8 = 0 \<and> sget bs 3 AND 0xC0 = 0x80 \<and> 0xFFFF < ?rc \<and> 0x110000 > ?rc")
            case True
            with nn hi b40 b20 b10 four show ?thesis by (simp add: utf8_decode_def)
          next
            case c: False
            with nn hi b40 b20 b10 have "utf8_decode bs = (sget bs 0, 0)"
              by (auto simp: utf8_decode_def Let_def)
            with nn hi raw show ?thesis by simp
          qed
        qed
      qed
    qed
  qed
qed

lemma decode_len: "snd (utf8_decode bs) \<le> length bs"
proof (cases bs rule: decode_cases)
  case two
  from sget_cont [OF two(2)] two(4) show ?thesis by simp
next
  case three
  from sget_cont [OF three(2)] three(4) show ?thesis by simp
next
  case four
  from sget_cont [OF four(2)] four(4) show ?thesis by simp
next
  case ascii
  from sget_nonneg [OF ascii(1)] ascii(3) show ?thesis by (cases bs) simp_all
qed simp_all

lemma decode_le4: "snd (utf8_decode bs) \<le> 4"
  by (cases bs rule: decode_cases) simp_all

lemma decode_raw: "snd (utf8_decode bs) = 0 \<Longrightarrow> fst (utf8_decode bs) = sget bs 0"
  by (cases bs rule: decode_cases) simp_all

lemma decode_neg_iff: "fst (utf8_decode bs) < 0 \<longleftrightarrow> bs = []"
proof (cases bs rule: decode_cases)
  case ascii
  then show ?thesis by auto
next
  case raw
  then show ?thesis by auto
qed auto

lemma byte_all:
  assumes "list_all (\<lambda>n. P (int n)) [0..<256]" "0 \<le> b" "b < 256"
  shows "P b"
proof -
  from assms(2,3) have "nat b \<in> set [0..<256]" by simp
  with assms(1) have "P (int (nat b))" unfolding list_all_iff by blast
  with assms(2) show ?thesis by simp
qed

text \<open>The tests of the decoder on a byte, as ranges: checked on each of the 256 bytes.\<close>

lemma byte_class:
  "0 \<le> (b::int) \<Longrightarrow> b < 256 \<Longrightarrow>
   ((b AND 0x80 \<noteq> 0) = (0x80 \<le> b)) \<and>
   ((b AND 0xC0 = 0x80) = (0x80 \<le> b \<and> b \<le> 0xBF)) \<and>
   ((b AND 0x80 \<noteq> 0 \<and> b AND 0x40 \<noteq> 0 \<and> b AND 0x20 = 0) = (0xC0 \<le> b \<and> b \<le> 0xDF)) \<and>
   ((b AND 0x80 \<noteq> 0 \<and> b AND 0x40 \<noteq> 0 \<and> b AND 0x20 \<noteq> 0 \<and> b AND 0x10 = 0) =
      (0xE0 \<le> b \<and> b \<le> 0xEF)) \<and>
   ((b AND 0x80 \<noteq> 0 \<and> b AND 0x40 \<noteq> 0 \<and> b AND 0x20 \<noteq> 0 \<and> b AND 0x10 \<noteq> 0 \<and> b AND 0x8 = 0) =
      (0xF0 \<le> b \<and> b \<le> 0xF7))"
  by (rule byte_all [where P = "\<lambda>b::int.
   ((b AND 0x80 \<noteq> 0) = (0x80 \<le> b)) \<and>
   ((b AND 0xC0 = 0x80) = (0x80 \<le> b \<and> b \<le> 0xBF)) \<and>
   ((b AND 0x80 \<noteq> 0 \<and> b AND 0x40 \<noteq> 0 \<and> b AND 0x20 = 0) = (0xC0 \<le> b \<and> b \<le> 0xDF)) \<and>
   ((b AND 0x80 \<noteq> 0 \<and> b AND 0x40 \<noteq> 0 \<and> b AND 0x20 \<noteq> 0 \<and> b AND 0x10 = 0) =
      (0xE0 \<le> b \<and> b \<le> 0xEF)) \<and>
   ((b AND 0x80 \<noteq> 0 \<and> b AND 0x40 \<noteq> 0 \<and> b AND 0x20 \<noteq> 0 \<and> b AND 0x10 \<noteq> 0 \<and> b AND 0x8 = 0) =
      (0xF0 \<le> b \<and> b \<le> 0xF7))"]) code_simp

lemma byte_hi: "0 \<le> (b::int) \<Longrightarrow> b < 256 \<Longrightarrow> (b AND 0x80 \<noteq> 0) = (0x80 \<le> b)"
  by (drule (1) byte_class) blast

lemma byte_cont: "0 \<le> (b::int) \<Longrightarrow> b < 256 \<Longrightarrow> (b AND 0xC0 = 0x80) = (0x80 \<le> b \<and> b \<le> 0xBF)"
  by (drule (1) byte_class) blast

lemma byte_lead2:
  "0 \<le> (b::int) \<Longrightarrow> b < 256 \<Longrightarrow>
   (b AND 0x80 \<noteq> 0 \<and> b AND 0x40 \<noteq> 0 \<and> b AND 0x20 = 0) = (0xC0 \<le> b \<and> b \<le> 0xDF)"
  by (drule (1) byte_class) blast

lemma byte_lead3:
  "0 \<le> (b::int) \<Longrightarrow> b < 256 \<Longrightarrow>
   (b AND 0x80 \<noteq> 0 \<and> b AND 0x40 \<noteq> 0 \<and> b AND 0x20 \<noteq> 0 \<and> b AND 0x10 = 0) =
   (0xE0 \<le> b \<and> b \<le> 0xEF)"
  by (drule (1) byte_class) blast

lemma byte_lead4:
  "0 \<le> (b::int) \<Longrightarrow> b < 256 \<Longrightarrow>
   (b AND 0x80 \<noteq> 0 \<and> b AND 0x40 \<noteq> 0 \<and> b AND 0x20 \<noteq> 0 \<and> b AND 0x10 \<noteq> 0 \<and> b AND 0x8 = 0) =
   (0xF0 \<le> b \<and> b \<le> 0xF7)"
  by (drule (1) byte_class) blast

lemma decode_raw_range:
  "snd (utf8_decode bs) = 0 \<Longrightarrow> 0 < fst (utf8_decode bs) \<Longrightarrow>
   128 \<le> fst (utf8_decode bs) \<and> fst (utf8_decode bs) \<le> 255"
proof (cases bs rule: decode_cases)
  case raw
  have r: "sget bs 0 < 256" using sget_range [of bs 0] by simp
  with raw byte_hi [of "sget bs 0"] show ?thesis by simp
qed simp_all


subsection \<open>The decoded value, in arithmetic\<close>

lemma and_low: "(a::int) AND 0x3F = a mod 64" "a AND 0x1F = a mod 32" "a AND 0x0F = a mod 16"
  "a AND 0x07 = a mod 8"
  using take_bit_eq_mask [of 6 a] take_bit_eq_mask [of 5 a] take_bit_eq_mask [of 4 a]
    take_bit_eq_mask [of 3 a]
  by (simp_all add: take_bit_eq_mod mask_eq_exp_minus_1)

lemma push_or:
  assumes "0 \<le> y" "y < 2 ^ n"
  shows "push_bit n x OR y = x * 2 ^ n + (y::int)"
proof -
  from assms have "take_bit n y = y" by (simp add: take_bit_int_eq_self)
  then have "push_bit n x OR y = concat_bit n y x"
    by (simp add: concat_bit_def or.commute)
  also have "\<dots> = take_bit n y + push_bit n x" by (rule concat_bit_eq)
  finally show ?thesis using \<open>take_bit n y = y\<close> by (simp add: push_bit_eq_mult)
qed

lemma mod_shift: "k * m \<le> (b::int) \<Longrightarrow> b < k * m + m \<Longrightarrow> 0 < m \<Longrightarrow> b mod m = b - k * m"
proof -
  assume a: "k * m \<le> b" "b < k * m + m" "0 < m"
  have "b mod m = (b - k * m) mod m" by (simp add: mod_diff_eq [symmetric] algebra_simps)
  also from a have "(b - k * m) mod m = b - k * m" by (intro mod_pos_pos_trivial) simp_all
  finally show ?thesis .
qed

lemma mask_cont: "0x80 \<le> (b::int) \<Longrightarrow> b \<le> 0xBF \<Longrightarrow> b AND 0x3F = b - 0x80"
  using mod_shift [of 2 64 b] by (simp add: and_low)

lemma mask_lead2: "0xC0 \<le> (b::int) \<Longrightarrow> b \<le> 0xDF \<Longrightarrow> b AND 0x1F = b - 0xC0"
  using mod_shift [of 6 32 b] by (simp add: and_low)

lemma mask_lead3: "0xE0 \<le> (b::int) \<Longrightarrow> b \<le> 0xEF \<Longrightarrow> b AND 0x0F = b - 0xE0"
  using mod_shift [of 14 16 b] by (simp add: and_low)

lemma mask_lead4: "0xF0 \<le> (b::int) \<Longrightarrow> b \<le> 0xF7 \<Longrightarrow> b AND 0x07 = b - 0xF0"
  using mod_shift [of 30 8 b] by (simp add: and_low)

lemma rc2_arith:
  assumes "0xC0 \<le> b0" "b0 \<le> 0xDF" "0x80 \<le> b1" "b1 \<le> 0xBF"
  shows "utf8_rc2 b0 b1 = (b0 - 0xC0) * 64 + (b1 - 0x80)"
proof -
  from assms have "0 \<le> b1 - 0x80" "b1 - 0x80 < 2 ^ 6" by simp_all
  from push_or [OF this] assms show ?thesis
    by (simp add: utf8_rc2_def mask_cont mask_lead2)
qed

lemma rc3_arith:
  assumes "0xE0 \<le> b0" "b0 \<le> 0xEF" "0x80 \<le> b1" "b1 \<le> 0xBF" "0x80 \<le> b2" "b2 \<le> 0xBF"
  shows "utf8_rc3 b0 b1 b2 = (b0 - 0xE0) * 4096 + (b1 - 0x80) * 64 + (b2 - 0x80)"
proof -
  from assms have "0 \<le> b2 - 0x80" "b2 - 0x80 < 2 ^ 6" by simp_all
  from push_or [OF this] have 1: "push_bit 6 (b1 - 0x80) OR (b2 - 0x80) = (b1 - 0x80) * 64 + (b2 - 0x80)"
    by simp
  from assms have "0 \<le> (b1 - 0x80) * 64 + (b2 - 0x80)" "(b1 - 0x80) * 64 + (b2 - 0x80) < 2 ^ 12"
    by simp_all
  from push_or [OF this] 1 assms show ?thesis
    by (simp add: utf8_rc3_def mask_cont mask_lead3)
qed

lemma rc4_arith:
  assumes "0xF0 \<le> b0" "b0 \<le> 0xF7" "0x80 \<le> b1" "b1 \<le> 0xBF" "0x80 \<le> b2" "b2 \<le> 0xBF"
    "0x80 \<le> b3" "b3 \<le> 0xBF"
  shows "utf8_rc4 b0 b1 b2 b3 =
    (b0 - 0xF0) * 262144 + (b1 - 0x80) * 4096 + (b2 - 0x80) * 64 + (b3 - 0x80)"
proof -
  from assms have "0 \<le> b3 - 0x80" "b3 - 0x80 < 2 ^ 6" by simp_all
  from push_or [OF this] have 1: "push_bit 6 (b2 - 0x80) OR (b3 - 0x80) = (b2 - 0x80) * 64 + (b3 - 0x80)"
    by simp
  from assms have "0 \<le> (b2 - 0x80) * 64 + (b3 - 0x80)" "(b2 - 0x80) * 64 + (b3 - 0x80) < 2 ^ 12"
    by simp_all
  from push_or [OF this] 1
  have 2: "push_bit 12 (b1 - 0x80) OR push_bit 6 (b2 - 0x80) OR (b3 - 0x80) =
      (b1 - 0x80) * 4096 + (b2 - 0x80) * 64 + (b3 - 0x80)"
    by simp
  from assms have "0 \<le> (b1 - 0x80) * 4096 + (b2 - 0x80) * 64 + (b3 - 0x80)"
    "(b1 - 0x80) * 4096 + (b2 - 0x80) * 64 + (b3 - 0x80) < 2 ^ 18"
    by simp_all
  from push_or [OF this] 2 assms show ?thesis
    by (simp add: utf8_rc4_def mask_cont mask_lead4)
qed


subsection \<open>Which sequences decode\<close>

lemma take_sget:
  "k \<le> length bs \<Longrightarrow> k \<le> 4 \<Longrightarrow>
   take k (map word_of_int [sget bs 0, sget bs 1, sget bs 2, sget bs 3]) = take k bs"
  using le4_cases [of k] by (auto simp: eval_nat_numeral Suc_le_length_iff)

lemma decodes_toI:
  assumes h: "holds s bs" and d: "utf8_decode bs = (v, k)" and e: "enc = take k bs"
  shows "decodes_to s v enc"
proof -
  from decode_len [of bs] decode_le4 [of bs] d have k: "k \<le> length bs" "k \<le> 4" by simp_all
  with e have l: "length enc = k" by simp
  from get_post [OF h] d k e l take_sget [OF k] show ?thesis
    by (simp add: decodes_to_def post_def split_beta)
qed

lemma decode_failsI:
  assumes h: "holds s bs" and d: "utf8_decode bs = (uint b, 0)"
  shows "decode_fails s b"
  using get_post [OF h] d by (simp add: decode_fails_def post_def split_beta)

lemma decode2:
  assumes bs: "bs = b0 # b1 # r" and l: "0xC0 \<le> uint b0" "uint b0 \<le> 0xDF" and c: "is_cont b1"
  defines "v \<equiv> (uint b0 - 0xC0) * 64 + (uint b1 - 0x80)"
  shows "utf8_decode bs = (if 0x7F < v then (v, 2) else (uint b0, 0))"
proof -
  have r: "0 \<le> uint b0" "uint b0 < 256" "0 \<le> uint b1" "uint b1 < 256" "-1 < uint b0"
    using uint_byte_range [of b0] uint_byte_range [of b1] by simp_all
  from byte_lead2 [OF r(1,2)] l
  have b: "uint b0 AND 0x80 \<noteq> 0" "uint b0 AND 0x40 \<noteq> 0" "uint b0 AND 0x20 = 0" by simp_all
  from byte_cont [OF r(3,4)] c have cc: "uint b1 AND 0xC0 = 0x80" by (simp add: is_cont_def)
  from c l have v: "utf8_rc2 (uint b0) (uint b1) = v"
    by (simp add: rc2_arith v_def is_cont_def)
  from b cc v r show ?thesis
    by (simp add: utf8_decode_def bs Let_def)
qed

lemma decode3:
  assumes bs: "bs = b0 # b1 # b2 # r" and l: "0xE0 \<le> uint b0" "uint b0 \<le> 0xEF"
    and c: "is_cont b1" "is_cont b2"
  defines "v \<equiv> (uint b0 - 0xE0) * 4096 + (uint b1 - 0x80) * 64 + (uint b2 - 0x80)"
  shows "utf8_decode bs =
    (if 0x7FF < v \<and> (0xD800 > v \<or> 0xDFFF < v) then (v, 3) else (uint b0, 0))"
proof -
  have r: "0 \<le> uint b0" "uint b0 < 256" "0 \<le> uint b2" "uint b2 < 256" "-1 < uint b0"
    using uint_byte_range [of b0] uint_byte_range [of b2] by simp_all
  from byte_lead3 [OF r(1,2)] l
  have b: "uint b0 AND 0x80 \<noteq> 0" "uint b0 AND 0x40 \<noteq> 0" "uint b0 AND 0x20 \<noteq> 0"
    "uint b0 AND 0x10 = 0" by simp_all
  from byte_cont [OF r(3,4)] c have cc: "uint b2 AND 0xC0 = 0x80" by (simp add: is_cont_def)
  from c l have v: "utf8_rc3 (uint b0) (uint b1) (uint b2) = v"
    by (simp add: rc3_arith v_def is_cont_def)
  from b cc v r show ?thesis
    by (simp add: utf8_decode_def bs Let_def eval_nat_numeral)
qed

lemma decode4:
  assumes bs: "bs = b0 # b1 # b2 # b3 # r" and l: "0xF0 \<le> uint b0" "uint b0 \<le> 0xF7"
    and c: "is_cont b1" "is_cont b2" "is_cont b3"
  defines "v \<equiv> (uint b0 - 0xF0) * 262144 + (uint b1 - 0x80) * 4096 + (uint b2 - 0x80) * 64 +
    (uint b3 - 0x80)"
  shows "utf8_decode bs = (if 0xFFFF < v \<and> 0x110000 > v then (v, 4) else (uint b0, 0))"
proof -
  have r: "0 \<le> uint b0" "uint b0 < 256" "0 \<le> uint b3" "uint b3 < 256" "-1 < uint b0"
    using uint_byte_range [of b0] uint_byte_range [of b3] by simp_all
  from byte_lead4 [OF r(1,2)] l
  have b: "uint b0 AND 0x80 \<noteq> 0" "uint b0 AND 0x40 \<noteq> 0" "uint b0 AND 0x20 \<noteq> 0"
    "uint b0 AND 0x10 \<noteq> 0" "uint b0 AND 0x8 = 0" by simp_all
  from byte_cont [OF r(3,4)] c have cc: "uint b3 AND 0xC0 = 0x80" by (simp add: is_cont_def)
  from c l have v: "utf8_rc4 (uint b0) (uint b1) (uint b2) (uint b3) = v"
    by (simp add: rc4_arith v_def is_cont_def)
  from b cc v r show ?thesis
    by (simp add: utf8_decode_def bs Let_def eval_nat_numeral)
qed

text \<open>
  Claim C6. In any state of the decoder in which the input that remains starts with a
  lead byte and the continuation bytes it announces (each \<open>10xxxxxx\<close>), the next
  call fails and returns the lead byte alone when the value is overlong, when three
  bytes encode a surrogate, and when four bytes encode a value above \<open>0x10FFFF\<close>;
  otherwise it returns the value, with its width in \<open>bytesInCodePoint\<close> and its
  bytes in \<open>cbuff\<close>.
\<close>

theorem C6_utf8_validation:
  assumes h: "holds s bs"
  shows
   "(\<forall>b0 b1 r. bs = b0 # b1 # r \<and> 0xC0 \<le> uint b0 \<and> uint b0 \<le> 0xDF \<and> is_cont b1 \<longrightarrow>
       (let v = (uint b0 - 0xC0) * 64 + (uint b1 - 0x80) in
        if v < 0x80 then decode_fails s b0 else decodes_to s v [b0, b1])) \<and>
    (\<forall>b0 b1 b2 r. bs = b0 # b1 # b2 # r \<and> 0xE0 \<le> uint b0 \<and> uint b0 \<le> 0xEF \<and>
         is_cont b1 \<and> is_cont b2 \<longrightarrow>
       (let v = (uint b0 - 0xE0) * 4096 + (uint b1 - 0x80) * 64 + (uint b2 - 0x80) in
        if v < 0x800 \<or> (0xD800 \<le> v \<and> v \<le> 0xDFFF) then decode_fails s b0
        else decodes_to s v [b0, b1, b2])) \<and>
    (\<forall>b0 b1 b2 b3 r. bs = b0 # b1 # b2 # b3 # r \<and> 0xF0 \<le> uint b0 \<and> uint b0 \<le> 0xF7 \<and>
         is_cont b1 \<and> is_cont b2 \<and> is_cont b3 \<longrightarrow>
       (let v = (uint b0 - 0xF0) * 262144 + (uint b1 - 0x80) * 4096 + (uint b2 - 0x80) * 64 +
                (uint b3 - 0x80) in
        if v < 0x10000 \<or> 0x10FFFF < v then decode_fails s b0
        else decodes_to s v [b0, b1, b2, b3]))"
proof (intro conjI allI impI)
  fix b0 b1 r
  assume a: "bs = b0 # b1 # r \<and> 0xC0 \<le> uint b0 \<and> uint b0 \<le> 0xDF \<and> is_cont b1"
  then have d: "utf8_decode bs =
      (if 0x7F < (uint b0 - 0xC0) * 64 + (uint b1 - 0x80)
       then ((uint b0 - 0xC0) * 64 + (uint b1 - 0x80), 2) else (uint b0, 0))"
    by (intro decode2) simp_all
  show "let v = (uint b0 - 0xC0) * 64 + (uint b1 - 0x80) in
        if v < 0x80 then decode_fails s b0 else decodes_to s v [b0, b1]"
  proof (cases "0x7F < (uint b0 - 0xC0) * 64 + (uint b1 - 0x80)")
    case True
    with d a decodes_toI [OF h, of _ 2 "[b0, b1]"] show ?thesis by (simp add: Let_def)
  next
    case False
    with d decode_failsI [OF h, of b0] show ?thesis by (simp add: Let_def)
  qed
next
  fix b0 b1 b2 r
  assume a: "bs = b0 # b1 # b2 # r \<and> 0xE0 \<le> uint b0 \<and> uint b0 \<le> 0xEF \<and> is_cont b1 \<and> is_cont b2"
  let ?v = "(uint b0 - 0xE0) * 4096 + (uint b1 - 0x80) * 64 + (uint b2 - 0x80)"
  from a have d: "utf8_decode bs =
      (if 0x7FF < ?v \<and> (0xD800 > ?v \<or> 0xDFFF < ?v) then (?v, 3) else (uint b0, 0))"
    by (intro decode3) simp_all
  show "let v = ?v in
        if v < 0x800 \<or> (0xD800 \<le> v \<and> v \<le> 0xDFFF) then decode_fails s b0
        else decodes_to s v [b0, b1, b2]"
  proof (cases "0x7FF < ?v \<and> (0xD800 > ?v \<or> 0xDFFF < ?v)")
    case True
    with d a decodes_toI [OF h, of _ 3 "[b0, b1, b2]"] show ?thesis
      by (auto simp add: Let_def)
  next
    case False
    with d decode_failsI [OF h, of b0] show ?thesis by (auto simp add: Let_def)
  qed
next
  fix b0 b1 b2 b3 r
  assume a: "bs = b0 # b1 # b2 # b3 # r \<and> 0xF0 \<le> uint b0 \<and> uint b0 \<le> 0xF7 \<and>
    is_cont b1 \<and> is_cont b2 \<and> is_cont b3"
  let ?v = "(uint b0 - 0xF0) * 262144 + (uint b1 - 0x80) * 4096 + (uint b2 - 0x80) * 64 +
    (uint b3 - 0x80)"
  from a have d: "utf8_decode bs = (if 0xFFFF < ?v \<and> 0x110000 > ?v then (?v, 4) else (uint b0, 0))"
    by (intro decode4) simp_all
  show "let v = ?v in
        if v < 0x10000 \<or> 0x10FFFF < v then decode_fails s b0
        else decodes_to s v [b0, b1, b2, b3]"
  proof (cases "0xFFFF < ?v \<and> 0x110000 > ?v")
    case True
    with d a decodes_toI [OF h, of _ 4 "[b0, b1, b2, b3]"] show ?thesis
      by (auto simp add: Let_def)
  next
    case False
    with d decode_failsI [OF h, of b0] show ?thesis by (auto simp add: Let_def)
  qed
qed


theorem C6_utf8_validation_witness:
  "holds (utf8_init [0xC3, 0xA9]) [0xC3, 0xA9] \<and>
   decodes_to (utf8_init [0xC3, 0xA9]) 0xE9 [0xC3, 0xA9] \<and>
   decode_fails (utf8_init [0xC0, 0x80]) 0xC0 \<and>
   decode_fails (utf8_init [0xED, 0xA0, 0x80]) 0xED \<and>
   decodes_to (utf8_init [0xE2, 0x82, 0xAC]) 0x20AC [0xE2, 0x82, 0xAC] \<and>
   decode_fails (utf8_init [0xF4, 0x90, 0x80, 0x80]) 0xF4 \<and>
   decodes_to (utf8_init [0xF0, 0x9F, 0x98, 0x80]) 0x1F600 [0xF0, 0x9F, 0x98, 0x80]"
proof -
  note c = C6_utf8_validation [OF holds_init]
  from c [of "[0xC3, 0xA9]", THEN conjunct1, rule_format, of "0xC3" "0xA9" "[]"]
  have 1: "decodes_to (utf8_init [0xC3, 0xA9]) 0xE9 [0xC3, 0xA9]"
    by (simp add: is_cont_def)
  from c [of "[0xC0, 0x80]", THEN conjunct1, rule_format, of "0xC0" "0x80" "[]"]
  have 2: "decode_fails (utf8_init [0xC0, 0x80]) 0xC0"
    by (simp add: is_cont_def)
  from c [of "[0xED, 0xA0, 0x80]", THEN conjunct2, THEN conjunct1, rule_format,
      of "0xED" "0xA0" "0x80" "[]"]
  have 3: "decode_fails (utf8_init [0xED, 0xA0, 0x80]) 0xED"
    by (simp add: is_cont_def)
  from c [of "[0xE2, 0x82, 0xAC]", THEN conjunct2, THEN conjunct1, rule_format,
      of "0xE2" "0x82" "0xAC" "[]"]
  have 4: "decodes_to (utf8_init [0xE2, 0x82, 0xAC]) 0x20AC [0xE2, 0x82, 0xAC]"
    by (simp add: is_cont_def)
  from c [of "[0xF4, 0x90, 0x80, 0x80]", THEN conjunct2, THEN conjunct2, rule_format,
      of "0xF4" "0x90" "0x80" "0x80" "[]"]
  have 5: "decode_fails (utf8_init [0xF4, 0x90, 0x80, 0x80]) 0xF4"
    by (simp add: is_cont_def)
  from c [of "[0xF0, 0x9F, 0x98, 0x80]", THEN conjunct2, THEN conjunct2, rule_format,
      of "0xF0" "0x9F" "0x98" "0x80" "[]"]
  have 6: "decodes_to (utf8_init [0xF0, 0x9F, 0x98, 0x80]) 0x1F600 [0xF0, 0x9F, 0x98, 0x80]"
    by (simp add: is_cont_def)
  from 1 2 3 4 5 6 holds_init [of "[0xC3, 0xA9]"] show ?thesis by simp
qed


subsection \<open>The units of successive calls\<close>

text \<open>
  In any state of the decoder, with \<open>bs\<close> the input that remains, the units that
  successive calls return up to the end of the input, concatenated, are \<open>bs\<close>.
\<close>

lemma unit_bytes_spec:
  assumes h: "holds s bs" and ne: "bs \<noteq> []"
  shows "unit_bytes (fst (getUtf8CodePoint s)) (snd (getUtf8CodePoint s)) =
    take (max 1 (snd (utf8_decode bs))) bs"
proof (cases "snd (utf8_decode bs) = 0")
  case True
  from ne obtain b r where bs: "bs = b # r" by (cases bs) auto
  from decode_raw [OF True] bs have "fst (utf8_decode bs) = uint b" by simp
  with True get_fst [OF h] get_bytes [OF h] bs show ?thesis
    by (simp add: unit_bytes_def)
next
  case False
  from get_post [OF h] take_sget [OF decode_len decode_le4, of bs]
  have "take (snd (utf8_decode bs)) (cbuff (snd (getUtf8CodePoint s))) =
      take (snd (utf8_decode bs)) bs"
    by (simp add: post_def)
  with False get_bytes [OF h] show ?thesis
    by (simp add: unit_bytes_def max_def)
qed

lemma units_spec:
  "holds s bs \<Longrightarrow> length bs \<le> n \<Longrightarrow> \<exists>us. utf8_units (Suc n) s = Some us \<and> concat us = bs"
proof (induction n arbitrary: s bs)
  case 0
  then have "bs = []" by simp
  with get_fst [OF 0(1)] show ?case by (simp add: split_beta)
next
  case (Suc n)
  show ?case
  proof (cases "bs = []")
    case True
    with get_fst [OF Suc(2)] show ?thesis by (simp add: split_beta)
  next
    case False
    let ?k = "max 1 (snd (utf8_decode bs))"
    let ?s' = "snd (getUtf8CodePoint s)"
    from False Suc(3) have "length (drop ?k bs) \<le> n" by (cases bs) auto
    from Suc.IH [OF get_holds [OF Suc(2)] this]
    obtain us where us: "utf8_units (Suc n) ?s' = Some us" "concat us = drop ?k bs" by blast
    from False decode_neg_iff [of bs] get_fst [OF Suc(2)]
    have nn: "\<not> fst (getUtf8CodePoint s) < 0" by simp
    have "utf8_units (Suc (Suc n)) s = Some (unit_bytes (fst (getUtf8CodePoint s)) ?s' # us)"
      using nn us(1) by (subst utf8_units.simps) (simp add: split_beta)
    with us(2) unit_bytes_spec [OF Suc(2) False] show ?thesis by simp
  qed
qed

lemma raw_unit_spec:
  assumes h: "holds s (b # r)" and z: "bytesInCodePoint (snd (getUtf8CodePoint s)) = 0"
  shows "fst (getUtf8CodePoint s) = uint b \<and> holds (snd (getUtf8CodePoint s)) r"
proof -
  from z get_bytes [OF h] have z': "snd (utf8_decode (b # r)) = 0" by simp
  from decode_raw [OF z'] get_fst [OF h] have "fst (getUtf8CodePoint s) = uint b" by simp
  moreover from get_holds [OF h] z' have "holds (snd (getUtf8CodePoint s)) r" by simp
  ultimately show ?thesis ..
qed

text \<open>
  Claim C2 (a failed validation returns the lead byte as a raw unit and keeps the
  bytes read after it).  The code does not meet this on the input \<^verbatim>\<open>E0 61 80\<close>, a
  lead byte \<^verbatim>\<open>E0\<close> followed by the letter \<^verbatim>\<open>a\<close>, which is no continuation byte: the
  branch for three bytes tests the last byte only, so the call does not fail. It
  returns the code point U+0840 with the three bytes as one unit of width 3, instead
  of the unit \<^verbatim>\<open>E0\<close> of width 0 with \<^verbatim>\<open>61 80\<close> kept for the next calls; the
  sequence of units is \<^verbatim>\<open>[E0 61 80]\<close> and not \<^verbatim>\<open>[E0] [61] [80]\<close>.
\<close>

theorem C2_invalid_continuation_accepted:
  "decodes_to (utf8_init [0xE0, 0x61, 0x80]) 0x840 [0xE0, 0x61, 0x80] \<and>
   \<not> decode_fails (utf8_init [0xE0, 0x61, 0x80]) 0xE0 \<and>
   getUtf8BuffLength (snd (getUtf8CodePoint (utf8_init [0xE0, 0x61, 0x80]))) = 0 \<and>
   utf8_units 4 (utf8_init [0xE0, 0x61, 0x80]) = Some [[0xE0, 0x61, 0x80]]"
  by code_simp

subsection \<open>Pushing a code point back\<close>

lemma unget_bytes_1:
  "bytesInCodePoint s = 1 \<Longrightarrow>
   unget_bytes s = s\<lparr>bytesInCodePoint := 0, getUtf8Buff := (getUtf8Buff s)[0 := uint (cbuff s ! 0)]\<rparr>"
  by (subst unget_bytes.simps) (simp add: Let_def)

lemma unget_bytes_2:
  "bytesInCodePoint s = 2 \<Longrightarrow>
   unget_bytes s = s\<lparr>bytesInCodePoint := 0,
     getUtf8Buff := (getUtf8Buff s)[1 := uint (cbuff s ! 1), 0 := uint (cbuff s ! 0)]\<rparr>"
  by (subst unget_bytes.simps) (simp add: Let_def unget_bytes_1)

lemma unget_bytes_3:
  "bytesInCodePoint s = 3 \<Longrightarrow>
   unget_bytes s = s\<lparr>bytesInCodePoint := 0,
     getUtf8Buff := (getUtf8Buff s)[2 := uint (cbuff s ! 2), 1 := uint (cbuff s ! 1),
       0 := uint (cbuff s ! 0)]\<rparr>"
  by (subst unget_bytes.simps) (simp add: Let_def unget_bytes_2)

lemma unget_bytes_4:
  "bytesInCodePoint s = 4 \<Longrightarrow>
   unget_bytes s = s\<lparr>bytesInCodePoint := 0,
     getUtf8Buff := (getUtf8Buff s)[3 := uint (cbuff s ! 3), 2 := uint (cbuff s ! 2),
       1 := uint (cbuff s ! 1), 0 := uint (cbuff s ! 0)]\<rparr>"
  by (subst unget_bytes.simps) (simp add: Let_def unget_bytes_3)

lemma uint_sget: "i < length bs \<Longrightarrow> uint (word_of_int (sget bs i) :: byte) = sget bs i"
  by (simp add: sget_def)

lemma take_sget4:
  "n \<le> 4 \<Longrightarrow> take n [sget bs 0, sget bs (Suc 0), sget bs 2, sget bs 3] = map (sget bs) [0..<n]"
  using le4_cases [of n] by (auto simp: eval_nat_numeral)

lemma take_cb4:
  "n \<le> 4 \<Longrightarrow>
   map uint (take n [word_of_int (sget bs 0) :: byte, word_of_int (sget bs (Suc 0)),
     word_of_int (sget bs 2), word_of_int (sget bs 3)]) =
   map (\<lambda>i. uint (word_of_int (sget bs i) :: byte)) [0..<n]"
  using le4_cases [of n] by (auto simp: eval_nat_numeral)

lemma sget_split:
  "map (sget bs) [0..<n + m] = map (sget bs) [0..<m] @ map (sget (drop m bs)) [0..<n]"
proof -
  have "[0..<n + m] = [0..<m] @ [m..<m + n]"
    using upt_add_eq_append [of 0 m n] by (simp add: add.commute)
  moreover have "[m..<m + n] = map (\<lambda>i. i + m) [0..<n]"
    using map_add_upt [of m n] by (simp add: add.commute)
  then have "map (sget bs) [m..<m + n] = map (\<lambda>i. sget bs (i + m)) [0..<n]"
    by (simp add: comp_def)
  ultimately show ?thesis by (simp add: sget_drop)
qed

lemma unget_decoded_state:
  assumes l: "length (getUtf8Buff s) = 4" "length (cbuff s) = 4"
    and m: "bytesInCodePoint s = m" "0 < m" and room: "getUtf8BuffLength s + m \<le> 4"
  shows "getUtf8BuffLength (ungetUtf8CodePoint uc s) = getUtf8BuffLength s + m \<and>
    length (getUtf8Buff (ungetUtf8CodePoint uc s)) = 4 \<and>
    take (getUtf8BuffLength s + m) (getUtf8Buff (ungetUtf8CodePoint uc s)) =
      map uint (take m (cbuff s)) @ take (getUtf8BuffLength s) (getUtf8Buff s) \<and>
    cbuff (ungetUtf8CodePoint uc s) = cbuff s \<and> stdin (ungetUtf8CodePoint uc s) = stdin s \<and>
    stdout (ungetUtf8CodePoint uc s) = stdout s"
proof -
  obtain a b c d where buf: "getUtf8Buff s = [a, b, c, d]"
    using l list4 [of "getUtf8Buff s"] by auto
  obtain e f g i where cbf: "cbuff s = [e, f, g, i]"
    using l list4 [of "cbuff s"] by auto
  from m room consider "m = 1" | "m = 2" | "m = 3" | "m = 4" by arith
  then show ?thesis
  proof cases
    case 1
    with room consider "getUtf8BuffLength s = 0" | "getUtf8BuffLength s = 1"
      | "getUtf8BuffLength s = 2" | "getUtf8BuffLength s = 3" by arith
    then show ?thesis
      using m buf cbf 1
      by cases (simp_all add: ungetUtf8CodePoint_def Let_def memmove_def unget_bytes_1 eval_nat_numeral)
  next
    case 2
    with room consider "getUtf8BuffLength s = 0" | "getUtf8BuffLength s = 1"
      | "getUtf8BuffLength s = 2" by arith
    then show ?thesis
      using m buf cbf 2
      by cases (simp_all add: ungetUtf8CodePoint_def Let_def memmove_def unget_bytes_2 eval_nat_numeral)
  next
    case 3
    with room consider "getUtf8BuffLength s = 0" | "getUtf8BuffLength s = 1" by arith
    then show ?thesis
      using m buf cbf 3
      by cases (simp_all add: ungetUtf8CodePoint_def Let_def memmove_def unget_bytes_3 eval_nat_numeral)
  next
    case 4
    with room have "getUtf8BuffLength s = 0" by arith
    then show ?thesis
      using m buf cbf 4
      by (simp_all add: ungetUtf8CodePoint_def Let_def memmove_def unget_bytes_4 eval_nat_numeral)
  qed
qed

lemma unget_raw_state:
  assumes l: "length (getUtf8Buff s) = 4"
    and m: "bytesInCodePoint s = 0" and room: "getUtf8BuffLength s + 1 \<le> 4"
  shows "getUtf8BuffLength (ungetUtf8CodePoint uc s) = getUtf8BuffLength s + 1 \<and>
    length (getUtf8Buff (ungetUtf8CodePoint uc s)) = 4 \<and>
    take (getUtf8BuffLength s + 1) (getUtf8Buff (ungetUtf8CodePoint uc s)) =
      uc # take (getUtf8BuffLength s) (getUtf8Buff s) \<and>
    cbuff (ungetUtf8CodePoint uc s) = cbuff s \<and> stdin (ungetUtf8CodePoint uc s) = stdin s \<and>
    stdout (ungetUtf8CodePoint uc s) = stdout s"
proof -
  obtain a b c d where buf: "getUtf8Buff s = [a, b, c, d]"
    using l list4 [of "getUtf8Buff s"] by auto
  from room consider "getUtf8BuffLength s = 0" | "getUtf8BuffLength s = 1"
    | "getUtf8BuffLength s = 2" | "getUtf8BuffLength s = 3" by arith
  then show ?thesis
    using m buf
    by cases (simp_all add: ungetUtf8CodePoint_def Let_def memmove_def eval_nat_numeral)
qed

lemma holds_alt:
  "holds s bs \<longleftrightarrow>
     length (getUtf8Buff s) = 4 \<and> length (cbuff s) = 4 \<and> getUtf8BuffLength s \<le> 4 \<and>
     take (getUtf8BuffLength s) (getUtf8Buff s) = map (sget bs) [0..<getUtf8BuffLength s] \<and>
     stdin s = drop (getUtf8BuffLength s) bs"
  using take_sget4 [of "getUtf8BuffLength s" bs] by (auto simp: holds_def avail_def)

lemma unget_raw:
  assumes h: "holds s (drop 1 bs)" and m: "bytesInCodePoint s = 0"
    and room: "getUtf8BuffLength s + 1 \<le> 4" and uc: "uc = sget bs 0"
  shows "holds (ungetUtf8CodePoint uc s) bs \<and> stdout (ungetUtf8CodePoint uc s) = stdout s"
proof -
  from h have l: "length (getUtf8Buff s) = 4" by (simp add: holds_alt)
  note u = unget_raw_state [OF l m room, of uc]
  have "map (sget bs) [0..<getUtf8BuffLength s + 1] =
      sget bs 0 # map (sget (drop 1 bs)) [0..<getUtf8BuffLength s]"
    using sget_split [of bs "getUtf8BuffLength s" 1] by (simp add: upt_rec)
  with h u uc room show ?thesis
    by (simp add: holds_alt del: upt_Suc)
qed

lemma unget_decoded:
  assumes h: "holds s (drop m bs)" and m: "bytesInCodePoint s = m" "0 < m" "m \<le> length bs"
    and room: "getUtf8BuffLength s + m \<le> 4"
    and cb: "take m (cbuff s) = take m (map word_of_int [sget bs 0, sget bs 1, sget bs 2, sget bs 3])"
  shows "holds (ungetUtf8CodePoint uc s) bs \<and> stdout (ungetUtf8CodePoint uc s) = stdout s"
proof -
  from h have l: "length (getUtf8Buff s) = 4" "length (cbuff s) = 4" by (simp_all add: holds_alt)
  note u = unget_decoded_state [OF l m(1,2) room, of uc]
  from room have m4: "m \<le> 4" by simp
  have "map uint (take m (cbuff s)) = map (\<lambda>i. uint (word_of_int (sget bs i) :: byte)) [0..<m]"
    using take_cb4 [OF m4, of bs] by (simp add: cb)
  also have "\<dots> = map (sget bs) [0..<m]"
    using m(3) by (intro map_cong refl uint_sget) simp
  finally have c: "map uint (take m (cbuff s)) = map (sget bs) [0..<m]" .
  from h u c room sget_split [of bs "getUtf8BuffLength s" m] show ?thesis
    by (simp add: holds_alt del: upt_Suc)
qed

lemma peek_spec:
  assumes h: "holds s bs"
  shows "fst (utf8_peek s) = fst (utf8_decode bs) \<and> holds (snd (utf8_peek s)) bs \<and>
    stdout (snd (utf8_peek s)) = stdout s"
proof -
  let ?r = "getUtf8CodePoint s"
  let ?m = "snd (utf8_decode bs)"
  from get_post [OF h] have p: "fst ?r = fst (utf8_decode bs)" "bytesInCodePoint (snd ?r) = ?m"
    "holds (snd ?r) (drop (max 1 ?m) bs)" "getUtf8BuffLength (snd ?r) + max 1 ?m \<le> 4"
    "stdout (snd ?r) = stdout s"
    "take ?m (cbuff (snd ?r)) = take ?m (map word_of_int [sget bs 0, sget bs 1, sget bs 2, sget bs 3])"
    by (simp_all add: post_def)
  have "holds (ungetUtf8CodePoint (fst ?r) (snd ?r)) bs \<and>
    stdout (ungetUtf8CodePoint (fst ?r) (snd ?r)) = stdout (snd ?r)"
  proof (cases "?m = 0")
    case True
    with p decode_raw [OF True] show ?thesis by (intro unget_raw) simp_all
  next
    case False
    with p decode_len [of bs] show ?thesis by (intro unget_decoded [where m = ?m]) (simp_all add: max_def)
  qed
  with p show ?thesis by (simp add: utf8_peek_def split_beta)
qed


section \<open>Writing leaves the decoder alone, and only appends\<close>

lemma holds_stdout [simp]: "holds (s\<lparr>stdout := x\<rparr>) bs = holds s bs"
  by (simp add: holds_def avail_def)

lemma emit_cases: "emit p x s = s \<or> emit p x s = s\<lparr>stdout := stdout s @ x\<rparr>"
  by (simp add: emit_def fwrite_def)

lemma holds_emit [simp]: "holds (emit p x s) bs = holds s bs"
  using emit_cases [of p x s] by auto

lemma holds_putc [simp]: "holds (putc p c s) bs = holds s bs"
  by (simp add: putc_def)

lemma prefix_emit: "prefix (stdout s) (stdout (emit p x s))"
  using emit_cases [of p x s] by auto

lemma prefix_putc: "prefix (stdout s) (stdout (putc p c s))"
  by (simp add: putc_def prefix_emit)


section \<open>Round trip through the shell\<close>

text \<open>
  The decoder tests the continuation bits of the last byte of a three-byte sequence
  only, so the bytes \<^verbatim>\<open>E1 3B 80\<close>, whose middle byte is the semicolon, are taken for an
  encoding of U+1EC0.  The run of the loop on this record is short enough to be
  evaluated step by step.
\<close>

lemma d1: "getUtf8CodePoint (utf8_init [0xE1, 0x3B, 0x80]) =
  (0x1EC0, \<lparr>stdin = [], stdout = [], getUtf8Buff = [0xE1, 0x3B, 0x80, 0], getUtf8BuffLength = 0,
      cbuff = [0xE1, 0x3B, 0x80, 0], bytesInCodePoint = 3\<rparr>)"
  by code_simp

lemma get_at_eof:
  "stdin s = [] \<Longrightarrow> getUtf8BuffLength s = 0 \<Longrightarrow> getUtf8Buff s = b # r \<Longrightarrow>
   getUtf8CodePoint s = (-1, s\<lparr>getUtf8Buff := -1 # r, bytesInCodePoint := 0\<rparr>)"
  by (simp add: getUtf8CodePoint_def read_into_def getc_def EOF_def utf8_fail_def
      utf8_return_first_def)

lemma fmt_u4_1EC0: "fmt_u4 0x1EC0 = [0x5C, 0x75, 0x31, 0x45, 0x43, 0x30 :: byte]"
  by (simp add: fmt_u4_def fmt_X.simps [of 7872] fmt_X.simps [of 492] fmt_X.simps [of 30]
      fmt_X.simps [of "Suc 0"] precision_def digit_char_def backslash_def)

lemma C1_run:
  "utf8_loop (reliable p) (initial_flags\<lparr>useUnicodeEscapes := True, ansiEscapesLimit := 28\<rparr>)
     (Suc (Suc (Suc (Suc (Suc (Suc (Suc n))))))) OuterTop 0x1EC0 False
     \<lparr>stdin = [], stdout = [], getUtf8Buff = [0xE1, 0x3B, 0x80, 0], getUtf8BuffLength = 0,
      cbuff = [0xE1, 0x3B, 0x80, 0], bytesInCodePoint = 3\<rparr> =
   Some \<lparr>stdin = [],
      stdout = (if iswprint p 0x1EC0 then [0xE1, 0x3B, 0x80]
         else [0x24, 0x27, 0x5C, 0x75, 0x31, 0x45, 0x43, 0x30, 0x27]),
      getUtf8Buff = [-1, 0x3B, 0x80, 0], getUtf8BuffLength = 0,
      cbuff = [0xE1, 0x3B, 0x80, 0], bytesInCodePoint = 0\<rparr>"
  by (simp add: get_at_eof utf8_isPrintable_def
      initial_flags_def isShControl_def shControlChars_def utf8_escape_def fmt_u4_1EC0
      hasAnsiEscape_def quote_def EOF_def)

text \<open>
  Claim C1 (round trip): for every record without a null byte and every combination
  of options, a shell reading the output recovers the record.  The code does not
  meet this on the record \<^verbatim>\<open>E1 3B 80\<close> in a UTF-8 locale with the option
  \<^verbatim>\<open>-u\<close>: where the platform finds U+1EC0 printable the three bytes are written as
  they are, with the semicolon outside any quoting, so that a shell ends the command
  there; where it does not, the output is \<^verbatim>\<open>$'\u1EC0'\<close>, which a shell reads as the
  bytes \<^verbatim>\<open>E1 BB 80\<close>.  Neither output gives the record back.
\<close>

theorem C1_decoder_slip_breaks_round_trip:
  "utf8_engine (reliable p) (initial_flags\<lparr>useUnicodeEscapes := True, ansiEscapesLimit := 28\<rparr>)
     [0xE1, 0x3B, 0x80] =
   Some (if iswprint p 0x1EC0 then [0xE1, 0x3B, 0x80]
         else [0x24, 0x27, 0x5C, 0x75, 0x31, 0x45, 0x43, 0x30, 0x27])"
proof -
  have n: "(33::nat) = Suc (Suc (Suc (Suc (Suc (Suc (Suc 26))))))"
    by simp
  have "utf8_main (reliable p) (initial_flags\<lparr>useUnicodeEscapes := True, ansiEscapesLimit := 28\<rparr>)
      33 (utf8_init [0xE1, 0x3B, 0x80]) =
    Some \<lparr>stdin = [],
      stdout = (if iswprint p 0x1EC0 then [0xE1, 0x3B, 0x80]
         else [0x24, 0x27, 0x5C, 0x75, 0x31, 0x45, 0x43, 0x30, 0x27]),
      getUtf8Buff = [-1, 0x3B, 0x80, 0], getUtf8BuffLength = 0,
      cbuff = [0xE1, 0x3B, 0x80, 0], bytesInCodePoint = 0\<rparr>"
    unfolding utf8_main_def d1 by (subst n) (simp only: C1_run prod.case, simp)
  then show ?thesis
    by (simp add: utf8_engine_def)
qed


section \<open>Raw bytes and octal escapes\<close>

lemma bytes_emit [simp]: "bytesInCodePoint (emit p x s) = bytesInCodePoint s"
  using emit_cases [of p x s] by auto

lemma cbuff_emit [simp]: "cbuff (emit p x s) = cbuff s"
  using emit_cases [of p x s] by auto

lemma octal3_bytes:
  "0 \<le> c \<Longrightarrow> c < 512 \<Longrightarrow>
   fmt_octal3 c = [0x5C, digit_char (nat c div 64), digit_char (nat c div 8 mod 8),
     digit_char (nat c mod 8)]"
  by (simp add: fmt_octal3_eq backslash_def)

text \<open>
  Claim C10. A unit that \<open>getUtf8CodePoint\<close> returns with \<open>bytesInCodePoint\<close> 0 and
  that is not the end of a record is the first byte of the remaining input, and it
  lies between 128 and 255. Whatever the options and the classifier of the platform,
  the loop finds it not printable without the classifier being consulted for the
  result, opens \<^verbatim>\<open>$'\<close> for it, and writes it as a backslash and the three octal
  digits of its value; inside an open \<^verbatim>\<open>$'...'\<close> it writes the same escape.
\<close>

theorem C10_raw_byte_octal:
  assumes opts: "parse_options os initial_flags = Inr f"
    and h: "holds s0 bs" and g: "getUtf8CodePoint s0 = (c, s)"
    and raw: "bytesInCodePoint s = 0" and pos: "0 < c"
  shows "(\<exists>b r. bs = b # r \<and> c = uint b \<and> 128 \<le> c \<and> c \<le> 255) \<and>
    \<not> utf8_isPrintable p f c s \<and>
    utf8_loop (reliable p) f (Suc (Suc (Suc n))) InnerTop c pr s =
      utf8_loop (reliable p) f n EscNext c False
        (s\<lparr>stdout := stdout s @ [0x24, 0x27, 0x5C, digit_char (nat c div 64),
            digit_char (nat c div 8 mod 8), digit_char (nat c mod 8)]\<rparr>) \<and>
    utf8_loop (reliable p) f (Suc n) EscBody c (utf8_isPrintable p f c s) s =
      utf8_loop (reliable p) f n EscNext c False
        (s\<lparr>stdout := stdout s @ [0x5C, digit_char (nat c div 64),
            digit_char (nat c div 8 mod 8), digit_char (nat c mod 8)]\<rparr>)"
proof -
  from g have fs: "fst (getUtf8CodePoint s0) = c" "snd (getUtf8CodePoint s0) = s" by simp_all
  from get_bytes [OF h] fs raw have z: "snd (utf8_decode bs) = 0" by simp
  from get_fst [OF h] fs have v: "fst (utf8_decode bs) = c" by simp
  from decode_raw_range [OF z] v pos have rng: "128 \<le> c" "c \<le> 255" by simp_all
  from decode_neg_iff [of bs] v pos obtain b r where bs: "bs = b # r" by (cases bs) auto
  from decode_raw [OF z] v bs have cb: "c = uint b" by simp
  have np: "utf8_isPrintable p f c s = False" for p
    using raw by (simp add: utf8_isPrintable_def)
  from rng have na: "\<not> hasAnsiEscape (ansiEscapesLimit f) c"
    by (intro no_ansi_escape_high ansi_limit [OF opts]) simp
  from rng have o3: "fmt_octal3 c = [0x5C, digit_char (nat c div 64), digit_char (nat c div 8 mod 8),
     digit_char (nat c mod 8) :: byte]"
    by (intro octal3_bytes) simp_all
  from rng have big: "0x3F < c" "0x27 \<noteq> c" by simp_all
  have esc: "utf8_escape (reliable p) f c False t =
      (False, t\<lparr>stdout := stdout t @ fmt_octal3 c\<rparr>)" if "bytesInCodePoint t = 0" for t
    using that na big by (simp add: utf8_escape_def)
  have body: "utf8_loop (reliable p) f (Suc n) EscBody c False s =
      utf8_loop (reliable p) f n EscNext c False (s\<lparr>stdout := stdout s @ fmt_octal3 c\<rparr>)"
    using esc [OF raw] by simp
  have top: "utf8_loop (reliable p) f (Suc (Suc (Suc n))) InnerTop c pr s =
      utf8_loop (reliable p) f n EscNext c False
        (s\<lparr>stdout := stdout s @ 0x24 # 0x27 # fmt_octal3 c\<rparr>)"
    using big raw by (simp add: np esc quote_def)
  show ?thesis
    unfolding np
  proof (intro conjI)
    from bs cb rng show "\<exists>b r. bs = b # r \<and> c = uint b \<and> 128 \<le> c \<and> c \<le> 255"
      by simp
    show "\<not> False"
      by simp
    from top show "utf8_loop (reliable p) f (Suc (Suc (Suc n))) InnerTop c pr s =
      utf8_loop (reliable p) f n EscNext c False
        (s\<lparr>stdout := stdout s @ [0x24, 0x27, 0x5C, digit_char (nat c div 64),
            digit_char (nat c div 8 mod 8), digit_char (nat c mod 8)]\<rparr>)"
      unfolding o3 .
    from body show "utf8_loop (reliable p) f (Suc n) EscBody c False s =
      utf8_loop (reliable p) f n EscNext c False
        (s\<lparr>stdout := stdout s @ [0x5C, digit_char (nat c div 64),
            digit_char (nat c div 8 mod 8), digit_char (nat c mod 8)]\<rparr>)"
      unfolding o3 .
  qed
qed

theorem C10_raw_byte_octal_witness:
  "parse_options [OptU, OptE] initial_flags =
     Inr (initial_flags\<lparr>iswprintFn := IswNotBlank, useUnicodeEscapes := True, ansiEscapesLimit := 28\<rparr>) \<and>
   holds (utf8_init [0xFF, 0x41]) [0xFF, 0x41] \<and>
   fst (getUtf8CodePoint (utf8_init [0xFF, 0x41])) = 0xFF \<and>
   bytesInCodePoint (snd (getUtf8CodePoint (utf8_init [0xFF, 0x41]))) = 0 \<and>
   \<not> utf8_isPrintable example_platform
       (initial_flags\<lparr>iswprintFn := IswNotBlank, useUnicodeEscapes := True, ansiEscapesLimit := 28\<rparr>)
       0xFF (snd (getUtf8CodePoint (utf8_init [0xFF, 0x41]))) \<and>
   utf8_engine example_platform
       (initial_flags\<lparr>iswprintFn := IswNotBlank, useUnicodeEscapes := True, ansiEscapesLimit := 28\<rparr>)
       [0xFF, 0x41] = Some [0x24, 0x27, 0x5C, 0x33, 0x37, 0x37, 0x41, 0x27]"
proof -
  let ?f = "initial_flags\<lparr>iswprintFn := IswNotBlank, useUnicodeEscapes := True, ansiEscapesLimit := 28\<rparr>"
  have a: "parse_options [OptU, OptE] initial_flags = Inr ?f"
    by (simp add: initial_flags_def ansiEscapes_def)
  have c: "fst (getUtf8CodePoint (utf8_init [0xFF, 0x41])) = 0xFF"
    by code_simp
  have z: "bytesInCodePoint (snd (getUtf8CodePoint (utf8_init [0xFF, 0x41]))) = 0"
    by code_simp
  from c have g: "getUtf8CodePoint (utf8_init [0xFF, 0x41]) =
      (0xFF, snd (getUtf8CodePoint (utf8_init [0xFF, 0x41])))"
    by (simp add: prod_eq_iff)
  have e: "utf8_engine example_platform ?f [0xFF, 0x41] =
      Some [0x24, 0x27, 0x5C, 0x33, 0x37, 0x37, 0x41, 0x27]"
    by code_simp
  from C10_raw_byte_octal [OF a holds_init g z, of example_platform 0 False]
  have "\<not> utf8_isPrintable example_platform ?f 0xFF (snd (getUtf8CodePoint (utf8_init [0xFF, 0x41])))"
    by simp
  with a c z e holds_init [of "[0xFF, 0x41]"] show ?thesis
    by simp
qed

section \<open>Octal escapes before an octal digit\<close>

lemma getc_ungetc: "ascii_peek s = (fst (getc s), s)"
proof (cases s rule: getc_cases)
  case eof
  then show ?thesis by (simp add: ascii_peek_def ungetc_def)
next
  case (byte b bs)
  from byte(3) have "uint b \<noteq> EOF" unfolding EOF_def by linarith
  with byte show ?thesis by (simp add: ascii_peek_def ungetc_def)
qed

lemma octal_short: "0 \<le> c \<Longrightarrow> c \<le> 0x3F \<Longrightarrow> fmt_octal c = 0x5C # fmt_o (nat c)"
  by (simp add: fmt_octal_def backslash_def)

text \<open>
  Claim C3. Take a code point \<open>c\<close> of one byte that is not printable and has no
  named escape, so that the loop inside \<^verbatim>\<open>$'...'\<close> writes it in octal. In each of
  the three loops the escape is the backslash and exactly three octal digits when
  the code point that follows in the input is an octal digit (and when \<open>c\<close> is above
  \<^verbatim>\<open>077\<close>, which has three digits of its own); it is the backslash and the digits
  of \<open>c\<close> without padding, one or two, only when the code point that follows is not
  an octal digit. The code point looked at is pushed back: the next read returns
  it again.
\<close>

theorem C3_octal_digit_disambiguation:
  assumes c: "0 < c" "c < 256" and a: "\<not> hasAnsiEscape (ansiEscapesLimit f) c"
  shows
    "(holds s bs \<and> (c < 128 \<or> bytesInCodePoint s = 0) \<longrightarrow>
       \<not> fst (utf8_escape (reliable p) f c False s) \<and>
       stdout (snd (utf8_escape (reliable p) f c False s)) =
         stdout s @
           (if is_octal_digit (fst (getUtf8CodePoint s)) \<or> 0x3F < c
            then [0x5C, digit_char (nat c div 64), digit_char (nat c div 8 mod 8),
                  digit_char (nat c mod 8)]
            else 0x5C # fmt_o (nat c)) \<and>
       holds (snd (utf8_escape (reliable p) f c False s)) bs \<and>
       fst (getUtf8CodePoint (snd (utf8_escape (reliable p) f c False s))) =
         fst (getUtf8CodePoint s)) \<and>
     (stdout (ascii_escape (reliable p) f c False (a :: byte io)) =
         stdout a @
           (if is_octal_digit (fst (getc a)) \<or> 0x3F < c
            then [0x5C, digit_char (nat c div 64), digit_char (nat c div 8 mod 8),
                  digit_char (nat c mod 8)]
            else 0x5C # fmt_o (nat c)) \<and>
      stdin (ascii_escape (reliable p) f c False a) = stdin a) \<and>
     (c < 128 \<longrightarrow>
       \<not> fst (wide_escape (reliable p) f c False w) \<and>
       stdout (snd (wide_escape (reliable p) f c False w)) =
         stdout w @
           (if is_octal_digit (fst (getwc w)) \<or> 0x3F < c
            then [0x5C, digit_char (nat c div 64), digit_char (nat c div 8 mod 8),
                  digit_char (nat c mod 8)]
            else 0x5C # fmt_o (nat c)) \<and>
       stdin (snd (wide_escape (reliable p) f c False w)) = stdin w) \<and>
     (c \<le> 0x3F \<longrightarrow> length (fmt_o (nat c) :: byte list) \<le> 2)"
proof (intro conjI impI)
  from c have c0: "0 \<le> c" and c512: "c < 512" by simp_all
  note o3 = octal3_bytes [OF c0 c512]
  note os = octal_short [OF c0]
  {
    assume h: "holds s bs \<and> (c < 128 \<or> bytesInCodePoint s = 0)"
    then have hs: "holds s bs" ..
    note pk = peek_spec [OF hs]
    from pk get_fst [OF hs] have nx: "fst (utf8_peek s) = fst (getUtf8CodePoint s)" by simp
    have e: "utf8_escape (reliable p) f c False s =
      (False, (if 0x3F < c then s else snd (utf8_peek s))
         \<lparr>stdout := stdout s @ (if is_octal_digit (fst (getUtf8CodePoint s)) \<or> 0x3F < c
            then fmt_octal3 c else fmt_octal c)\<rparr>)"
      using h a pk nx by (simp add: utf8_escape_def split_beta)
    show "\<not> fst (utf8_escape (reliable p) f c False s)"
      by (simp add: e)
    show "stdout (snd (utf8_escape (reliable p) f c False s)) =
         stdout s @
           (if is_octal_digit (fst (getUtf8CodePoint s)) \<or> 0x3F < c
            then [0x5C, digit_char (nat c div 64), digit_char (nat c div 8 mod 8),
                  digit_char (nat c mod 8)]
            else 0x5C # fmt_o (nat c))"
      by (simp add: e o3 os)
    show hs': "holds (snd (utf8_escape (reliable p) f c False s)) bs"
      using pk hs by (simp add: e)
    from get_fst [OF hs'] get_fst [OF hs]
    show "fst (getUtf8CodePoint (snd (utf8_escape (reliable p) f c False s))) =
         fst (getUtf8CodePoint s)"
      by simp
  }
  have ea: "ascii_escape (reliable p) f c False a =
      a\<lparr>stdout := stdout a @ (if is_octal_digit (fst (getc a)) \<or> 0x3F < c
            then fmt_octal3 c else fmt_octal c)\<rparr>"
    using a by (simp add: ascii_escape_def getc_ungetc)
  show "stdout (ascii_escape (reliable p) f c False a) =
         stdout a @
           (if is_octal_digit (fst (getc a)) \<or> 0x3F < c
            then [0x5C, digit_char (nat c div 64), digit_char (nat c div 8 mod 8),
                  digit_char (nat c mod 8)]
            else 0x5C # fmt_o (nat c))"
    by (simp add: ea o3 os)
  show "stdin (ascii_escape (reliable p) f c False a) = stdin a"
    by simp
  {
    assume lt: "c < 128"
    have pw: "fst (wide_peek w) = fst (getwc w)"
      by (cases w rule: getwc_cases) (simp_all add: wide_peek_def)
    have sw: "stdout (snd (wide_peek w)) = stdout w"
      by (cases w rule: getwc_cases) (auto simp: wide_peek_def ungetwc_def getwc_def)
    have ew: "wide_escape (reliable p) f c False w =
      (False, (if 0x3F < c then w else snd (wide_peek w))
         \<lparr>stdout := stdout w @ (if is_octal_digit (fst (getwc w)) \<or> 0x3F < c
            then fmt_octal3 c else fmt_octal c)\<rparr>)"
      using a lt pw sw by (simp add: wide_escape_def split_beta)
    show "\<not> fst (wide_escape (reliable p) f c False w)"
      by (simp add: ew)
    show "stdout (snd (wide_escape (reliable p) f c False w)) =
         stdout w @
           (if is_octal_digit (fst (getwc w)) \<or> 0x3F < c
            then [0x5C, digit_char (nat c div 64), digit_char (nat c div 8 mod 8),
                  digit_char (nat c mod 8)]
            else 0x5C # fmt_o (nat c))"
      by (simp add: ew o3 os)
    show "stdin (snd (wide_escape (reliable p) f c False w)) = stdin w"
      by simp
  }
  assume "c \<le> 0x3F"
  with c0 show "length (fmt_o (nat c) :: byte list) \<le> 2"
    by (rule fmt_octal_length)
qed

theorem C3_octal_digit_disambiguation_witness:
  "\<not> hasAnsiEscape (ansiEscapesLimit initial_flags) 1 \<and>
   holds (snd (getUtf8CodePoint (utf8_init [1, 0x32]))) [0x32] \<and>
   fst (getUtf8CodePoint (snd (getUtf8CodePoint (utf8_init [1, 0x32])))) = 0x32 \<and>
   stdout (snd (utf8_escape (reliable example_platform) initial_flags 1 False
       (snd (getUtf8CodePoint (utf8_init [1, 0x32]))))) = [0x5C, 0x30, 0x30, 0x31] \<and>
   stdout (ascii_escape (reliable example_platform) initial_flags 1 False
       \<lparr>stdin = [0x32], stdout = []\<rparr>) = [0x5C, 0x30, 0x30, 0x31] \<and>
   stdout (snd (wide_escape (reliable example_platform) initial_flags 1 False
       \<lparr>stdin = [0x32], stdout = [], decode_error = False, errno = 0\<rparr>)) =
     [0x5C, 0x30, 0x30, 0x31] \<and>
   utf8_engine example_platform initial_flags [1, 0x32] =
     Some [0x24, 0x27, 0x5C, 0x30, 0x30, 0x31, 0x32, 0x27] \<and>
   utf8_engine example_platform initial_flags [1, 0x38] =
     Some [0x24, 0x27, 0x5C, 0x31, 0x38, 0x27]"
proof -
  let ?s = "snd (getUtf8CodePoint (utf8_init [1, 0x32]))"
  have na: "\<not> hasAnsiEscape (ansiEscapesLimit initial_flags) 1"
    by (simp add: hasAnsiEscape_def initial_flags_def ansiEscapes_def)
  have h: "holds ?s [0x32]"
    using get_holds [OF holds_init, of "[1, 0x32]"] by (simp add: utf8_decode_def)
  have n: "fst (getUtf8CodePoint ?s) = 0x32"
    using get_fst [OF h] by (simp add: utf8_decode_def)
  have so: "stdout ?s = []"
    using get_stdout [OF holds_init, of "[1, 0x32]"] by (simp add: utf8_init_def)
  have e1: "utf8_engine example_platform initial_flags [1, 0x32] =
     Some [0x24, 0x27, 0x5C, 0x30, 0x30, 0x31, 0x32, 0x27]"
    by code_simp
  have e2: "utf8_engine example_platform initial_flags [1, 0x38] =
     Some [0x24, 0x27, 0x5C, 0x31, 0x38, 0x27]"
    by code_simp
  have "(0::int) < 1" "(1::int) < 256"
    by simp_all
  from C3_octal_digit_disambiguation [OF this na, of ?s "[0x32]" example_platform
      "\<lparr>stdin = [0x32], stdout = []\<rparr>"
      "\<lparr>stdin = [0x32], stdout = [], decode_error = False, errno = 0\<rparr>"] h n so
  have "stdout (snd (utf8_escape (reliable example_platform) initial_flags 1 False ?s)) =
      [0x5C, 0x30, 0x30, 0x31] \<and>
    stdout (ascii_escape (reliable example_platform) initial_flags 1 False
       \<lparr>stdin = [0x32], stdout = []\<rparr>) = [0x5C, 0x30, 0x30, 0x31] \<and>
    stdout (snd (wide_escape (reliable example_platform) initial_flags 1 False
       \<lparr>stdin = [0x32], stdout = [], decode_error = False, errno = 0\<rparr>)) =
     [0x5C, 0x30, 0x30, 0x31]"
    by (simp add: is_octal_digit_def getc_def getwc_def digit_char_def)
  with na h n e1 e2 show ?thesis
    by simp
qed

section \<open>The UTF-8 loop ends, and only appends to its output\<close>

lemma get_step:
  assumes h: "holds s bs"
  shows "\<exists>c1 s1 bs1. getUtf8CodePoint s = (c1, s1) \<and> holds s1 bs1 \<and>
    length bs1 \<le> length bs \<and> (c1 \<noteq> EOF \<longrightarrow> length bs1 < length bs) \<and>
    stdout s1 = stdout s \<and> c1 = fst (utf8_decode bs) \<and>
    bytesInCodePoint s1 = snd (utf8_decode bs) \<and>
    bs1 = drop (max 1 (snd (utf8_decode bs))) bs"
proof -
  let ?c = "fst (getUtf8CodePoint s)"
  let ?s = "snd (getUtf8CodePoint s)"
  let ?bs = "drop (max 1 (snd (utf8_decode bs))) bs"
  have "?c \<noteq> EOF \<longrightarrow> length ?bs < length bs"
  proof
    assume "?c \<noteq> EOF"
    with get_fst [OF h] have "bs \<noteq> []" by (auto simp: EOF_def)
    then show "length ?bs < length bs" by (cases bs) auto
  qed
  moreover have "getUtf8CodePoint s = (?c, ?s)" by simp
  moreover have "length ?bs \<le> length bs" by simp
  moreover note get_holds [OF h] get_stdout [OF h] get_fst [OF h] get_bytes [OF h]
  ultimately show ?thesis by blast
qed

lemma escape_frame:
  assumes h: "holds s bs"
  shows "holds (snd (utf8_escape p f c pr s)) bs \<and>
    prefix (stdout s) (stdout (snd (utf8_escape p f c pr s)))"
proof -
  note pk = peek_spec [OF h]
  have f1: "holds (fold (\<lambda>b. emit p (g b)) xs t) bs = holds t bs" for g xs t
    by (induction xs arbitrary: t) simp_all
  have f2: "prefix (stdout t) (stdout (fold (\<lambda>b. emit p (g b)) xs t))" for g xs t
  proof (induction xs arbitrary: t)
    case (Cons x xs)
    from prefix_order.trans [OF prefix_emit Cons [of "emit p (g x) t"]] show ?case by simp
  qed simp
  have pe: "prefix (stdout s) (stdout (emit p x (snd (utf8_peek s))))" for x
    using prefix_emit [of "snd (utf8_peek s)" p x] pk by simp
  have hU: "holds (emit p (fmt_U c) s) bs" using h by simp
  note pkU = peek_spec [OF hU]
  have pU: "prefix (stdout s) (stdout (snd (utf8_peek (emit p (fmt_U c) s))))"
    using pkU prefix_emit [of s p "fmt_U c"] by simp
  show ?thesis
    using h pk pkU pU pe
    by (simp add: utf8_escape_def split_beta f1 f2 prefix_emit prefix_putc)
qed

lemma separator_frame:
  "holds (snd (write_separator p f s)) bs = holds s bs \<and>
   prefix (stdout s) (stdout (snd (write_separator p f s)))"
  by (simp add: write_separator_def fwrite_def split_beta)

lemma utf8_loop_ends:
  "holds s bs \<Longrightarrow> 8 * length bs + rank pl < n \<Longrightarrow>
   \<exists>s'. utf8_loop p f n pl c pr s = Some s' \<and> prefix (stdout s) (stdout s')"
proof (induction n arbitrary: s bs pl c pr)
  case 0
  then show ?case by simp
next
  case (Suc n)
  note h = Suc.prems(1)
  note IH = Suc.IH
  have step: "\<exists>s'. utf8_loop p f n pl' c' pr' t = Some s' \<and> prefix (stdout s) (stdout s')"
    if "holds t bs'" "8 * length bs' + rank pl' < n" "prefix (stdout s) (stdout t)"
    for pl' c' pr' t bs'
  proof -
    from IH [OF that(1,2)] obtain s' where "utf8_loop p f n pl' c' pr' t = Some s'"
      "prefix (stdout t) (stdout s')" by blast
    with that(3) show ?thesis by (auto intro: prefix_order.trans)
  qed
  show ?case
  proof (cases pl)
    case OuterTop
    with Suc.prems step [of s bs InnerTop] step [of "emit p [quote, quote] s" bs OuterCond]
    show ?thesis by (simp add: prefix_emit)
  next
    case InnerTop
    with Suc.prems step [of s bs StartEscape]
      step [of "emit p [backslash, quote] s" bs InnerNext]
      step [of "emit p (take (bytesInCodePoint s) (cbuff s)) s" bs InnerNext]
    show ?thesis by (simp add: prefix_emit Let_def)
  next
    case StartEscape
    with Suc.prems step [of "emit p [0x24, quote] s" bs EscBody]
    show ?thesis by (simp add: prefix_emit)
  next
    case EscBody
    from escape_frame [OF h, of p f c pr]
    have e: "holds (snd (utf8_escape p f c pr s)) bs"
      "prefix (stdout s) (stdout (snd (utf8_escape p f c pr s)))" by simp_all
    with EscBody Suc.prems step [of "snd (utf8_escape p f c pr s)" bs AfterEsc]
      step [of "snd (utf8_escape p f c pr s)" bs EscNext]
    show ?thesis by (simp add: split_beta)
  next
    case EscNext
    from get_step [OF h] obtain c1 s1 bs1 where g: "getUtf8CodePoint s = (c1, s1)" "holds s1 bs1"
      "length bs1 \<le> length bs" "c1 \<noteq> EOF \<Longrightarrow> length bs1 < length bs" "stdout s1 = stdout s"
      by blast
    show ?thesis
    proof (cases "0 < c1")
      case True
      then have "c1 \<noteq> EOF" by (simp add: EOF_def)
      from g(4) [OF this] Suc.prems(2) EscNext have "8 * length bs1 + rank EscBody < n" by simp
      from step [OF g(2) this] g(1,5) True EscNext show ?thesis by simp
    next
      case False
      from g(3) Suc.prems(2) EscNext have "8 * length bs1 + rank AfterEsc < n" by simp
      from step [OF g(2) this] g(1,5) False EscNext show ?thesis by simp
    qed
  next
    case AfterEsc
    with Suc.prems step [of "putc p 0x27 s" bs OuterCond] step [of "putc p 0x27 s" bs InnerNext]
    show ?thesis by (simp add: prefix_putc Let_def)
  next
    case InnerNext
    from get_step [OF h] obtain c1 s1 bs1 where g: "getUtf8CodePoint s = (c1, s1)" "holds s1 bs1"
      "length bs1 \<le> length bs" "c1 \<noteq> EOF \<Longrightarrow> length bs1 < length bs" "stdout s1 = stdout s"
      by blast
    show ?thesis
    proof (cases "0 < c1")
      case True
      then have "c1 \<noteq> EOF" by (simp add: EOF_def)
      from g(4) [OF this] Suc.prems(2) InnerNext have "8 * length bs1 + rank InnerTop < n" by simp
      from step [OF g(2) this] g(1,5) True InnerNext show ?thesis by simp
    next
      case False
      from g(3) Suc.prems(2) InnerNext have "8 * length bs1 + rank OuterCond < n" by simp
      from step [OF g(2) this] g(1,5) False InnerNext show ?thesis by simp
    qed
  next
    case OuterCond
    from get_step [OF h] obtain c1 s1 bs1 where g: "getUtf8CodePoint s = (c1, s1)" "holds s1 bs1"
      "length bs1 \<le> length bs" "c1 \<noteq> EOF \<Longrightarrow> length bs1 < length bs" "stdout s1 = stdout s"
      by blast
    let ?s2 = "snd (write_separator p f s1)"
    from separator_frame [of p f s1 bs1] g(2,5)
    have w: "holds ?s2 bs1" "prefix (stdout s) (stdout ?s2)" by simp_all
    show ?thesis
    proof (cases "0 = c \<and> EOF \<noteq> c1")
      case True
      then have "c1 \<noteq> EOF" by auto
      from g(4) [OF this] Suc.prems(2)
      have m: "8 * length bs1 + rank StartEscape < n" "8 * length bs1 + rank OuterTop < n"
        by simp_all
      from step [OF w(1) m(1) w(2)] step [OF w(1) m(2) w(2)] True g(1) w(2) OuterCond
      show ?thesis by (simp add: split_beta)
    next
      case False
      from prefix_putc [of s1 p 0] prefix_putc [of s p 0] g(5)
      have "prefix (stdout s) (stdout (putc p 0 s1))" "prefix (stdout s) (stdout (putc p 0 s))"
        by simp_all
      with False g(1,5) OuterCond show ?thesis by auto
    qed
  qed
qed

lemma utf8_main_ends:
  "\<exists>s'. utf8_main p f (8 * length inp + 9) (utf8_init inp) = Some s'"
proof -
  from get_step [OF holds_init, of inp] obtain c1 s1 bs1 where
    g: "getUtf8CodePoint (utf8_init inp) = (c1, s1)" "holds s1 bs1" "length bs1 \<le> length inp"
    by blast
  from g(3) have "8 * length bs1 + rank StartEscape < 8 * length inp + 9"
    "8 * length bs1 + rank OuterTop < 8 * length inp + 9" by simp_all
  from utf8_loop_ends [OF g(2) this(1)] utf8_loop_ends [OF g(2) this(2)] g(1)
  show ?thesis by (simp add: utf8_main_def) blast
qed

lemma utf8_engine_ends: "\<exists>out. utf8_engine p f inp = Some out"
  using utf8_main_ends [of p f inp] by (auto simp: utf8_engine_def)

lemma engine_ends: "\<exists>rc out. engine p f inp = Some (rc, out)"
  using utf8_engine_ends [of p f inp]
  by (auto simp: engine_def Let_def split_beta)

section \<open>The other loops only append to their output\<close>










section \<open>A record that begins with a tilde\<close>









section \<open>More steps do not change the result\<close>



section \<open>Runs of the UTF-8 loop on code points that need no quoting\<close>





lemma call_iswprintFn_reliable [simp]: "call_iswprintFn (reliable p) k c = call_iswprintFn p k c"
  by (cases k) (simp_all add: iswprintExt_def iswNotBlank_def)









section \<open>Well-formed code points\<close>







section \<open>Records that need no quoting\<close>






section \<open>Records that are written as they are\<close>




end
